theory Spec2Isabelle
  imports Main "HOL-Library.Word" "HOL-Library.Signed_Division" "HOL-Library.Log_Nat"
begin

section \<open>The machine types of the kernel\<close>

text \<open>
  The kernel \<open>pir\<close> of \<open>src/pircl/kernel.c\<close> is OpenCL C. Its cells are \<open>ulong\<close>
  (64 bits, unsigned), its indices, its \<open>length\<close> and its \<open>offset\<close> are \<open>int\<close>
  (32 bits, two's complement), and its accumulator and the values it compares are
  \<open>float\<close> (IEEE 754 binary32), kept here as the 32-bit pattern. The work-item
  functions (\<open>get_global_id\<close>, \<open>get_global_size\<close>, \<open>get_local_id\<close>,
  \<open>get_local_size\<close>, \<open>get_group_id\<close>) return \<open>size_t\<close>, 32 or 64 bits wide
  depending on the device: they are natural numbers here, and every assignment of one
  to an \<open>int\<close> is the truncation \<open>of_nat\<close> to 32 bits that the conversion performs.
\<close>

type_synonym ulong = "64 word"
type_synonym cint = "32 word"
type_synonym cfloat = "32 word"
type_synonym cchar = "8 word"

subsection \<open>Binary32 values\<close>

definition INFINITY :: cfloat where
  "INFINITY = 0x7F800000"

definition float_sign :: "cfloat \<Rightarrow> bool" where
  "float_sign x = (2 ^ 31 \<le> unat x)"

definition float_exp :: "cfloat \<Rightarrow> nat" where
  "float_exp x = (unat x div 2 ^ 23) mod 2 ^ 8"

definition float_frac :: "cfloat \<Rightarrow> nat" where
  "float_frac x = unat x mod 2 ^ 23"

definition float_mag :: "cfloat \<Rightarrow> nat" where
  "float_mag x = unat x mod 2 ^ 31"

definition float_isnan :: "cfloat \<Rightarrow> bool" where
  "float_isnan x = (float_exp x = 255 \<and> float_frac x \<noteq> 0)"

text \<open>
  The comparison \<open>a < b\<close> of two floats: false when either is a NaN, the two zeros
  are equal, and otherwise the order of sign and magnitude.
\<close>

definition float_lt :: "cfloat \<Rightarrow> cfloat \<Rightarrow> bool" where
  "float_lt a b =
     (if float_isnan a \<or> float_isnan b then False
      else if float_sign a then
        (if float_sign b then float_mag b < float_mag a
         else float_mag a \<noteq> 0 \<or> float_mag b \<noteq> 0)
      else \<not> float_sign b \<and> float_mag a < float_mag b)"

text \<open>The conditional \<open>(a < b) ? a : b\<close> of lines 13 and 27.\<close>

definition select_min :: "cfloat \<Rightarrow> cfloat \<Rightarrow> cfloat" where
  "select_min a b = (if float_lt a b then a else b)"

text \<open>The position of the leading one bit of a positive number.\<close>

fun ilog2 :: "nat \<Rightarrow> nat" where
  "ilog2 n = (if n < 2 then 0 else Suc (ilog2 (n div 2)))"

text \<open>
  \<open>float element = buffer[global_index]\<close> and \<open>float other = scratch[...]\<close> assign
  a \<open>ulong\<close> to a \<open>float\<close>: an implicit conversion of the value (OpenCL C 6.2.1),
  rounded to the nearest float, ties to the even significand. A number below \<open>2 ^ 24\<close>
  has at most 24 significant bits and is converted exactly. \<open>binary32_of_nat n\<close>
  is the pattern of the float nearest to \<open>n\<close>, as a number: the biased exponent
  \<open>e + 127\<close> above the 23 fraction bits of the significand.
\<close>

definition binary32_of_nat :: "nat \<Rightarrow> nat" where
  "binary32_of_nat n =
     (if n = 0 then 0
      else
        let e = ilog2 n in
        if e \<le> 23 then (e + 127) * 2 ^ 23 + (n * 2 ^ (23 - e) - 2 ^ 23)
        else
          let s = e - 23; q = n div 2 ^ s; r = n mod 2 ^ s; h = 2 ^ (s - 1);
              m = (if h < r \<or> (r = h \<and> odd q) then q + 1 else q)
          in (e + 127) * 2 ^ 23 + (m - 2 ^ 23))"

definition ulong_to_float :: "ulong \<Rightarrow> cfloat" where
  "ulong_to_float w = of_nat (binary32_of_nat (unat w))"

text \<open>
  \<open>scratch[local_index] = accumulator\<close> assigns a \<open>float\<close> to a \<open>ulong\<close>: the
  value is truncated towards zero. A float whose integral part is not a \<open>ulong\<close>
  (an infinity, a NaN, a value of \<open>2 ^ 64\<close> or more, or of \<open>-1\<close> or less) is out of
  range, and the language does not fix the result of the conversion (it is
  implementation-defined in OpenCL C 6.2.3.3, undefined in C99 6.3.1.4): it is the
  parameter \<open>oor\<close>, the cell that the device stores in that case.
\<close>

definition float_to_ulong :: "(cfloat \<Rightarrow> ulong) \<Rightarrow> cfloat \<Rightarrow> ulong" where
  "float_to_ulong oor x =
     (let E = float_exp x; sig = float_frac x + 2 ^ 23 in
      if E = 255 then oor x
      else if E < 127 then 0
      else if float_sign x then oor x
      else if E \<le> 150 then of_nat (sig div 2 ^ (150 - E))
      else if E \<le> 190 then of_nat (sig * 2 ^ (E - 150))
      else oor x)"

text \<open>A device that saturates out-of-range conversions, as \<open>convert_ulong_sat\<close> does.\<close>

definition oor_sat :: "cfloat \<Rightarrow> ulong" where
  "oor_sat x = (if float_isnan x \<or> float_sign x then 0 else 0xFFFFFFFFFFFFFFFF)"

text \<open>A device on which every out-of-range conversion gives zero.\<close>

definition oor_zero :: "cfloat \<Rightarrow> ulong" where
  "oor_zero x = 0"

text \<open>
  Reading the low 32 bits of a cell as a float, without converting its value: what
  \<open>as_float\<close> of the truncated cell would give. The kernel does not do this.
\<close>

definition reinterpret_float :: "ulong \<Rightarrow> cfloat" where
  "reinterpret_float w = ucast w"

subsection \<open>Memory\<close>

text \<open>
  The three arrays are lists. C does not check an index; an access outside the array
  is undefined behaviour, and the model stops there with the fault.
\<close>

datatype region = Buffer | Scratch | Output

datatype fault = OutOfBounds region int

definition load :: "region \<Rightarrow> ulong list \<Rightarrow> int \<Rightarrow> fault + ulong" where
  "load r xs i =
     (if 0 \<le> i \<and> i < int (length xs) then Inr (xs ! nat i) else Inl (OutOfBounds r i))"

definition store :: "region \<Rightarrow> ulong list \<Rightarrow> int \<Rightarrow> ulong \<Rightarrow> fault + ulong list" where
  "store r xs i v =
     (if 0 \<le> i \<and> i < int (length xs) then Inr (xs[nat i := v]) else Inl (OutOfBounds r i))"

section \<open>Phase 1: the grid-stride scan (lines 8 to 15)\<close>

text \<open>
  The loop of one work-item. \<open>global_index\<close> is an \<open>int\<close>; \<open>global_index +=
  get_global_size(0)\<close> adds in \<open>size_t\<close> and converts back to \<open>int\<close>, which is
  addition modulo \<open>2 ^ 32\<close>. The comparison with \<open>length\<close> is signed. The loop may
  run forever, so its result is an option: \<open>None\<close> is not returning. \<open>visited\<close>
  records the indices read, in order; the kernel itself keeps no such list.
\<close>

partial_function (option) scan_loop ::
  "ulong list \<Rightarrow> cint \<Rightarrow> nat \<Rightarrow> cint \<Rightarrow> cfloat \<Rightarrow> int list \<Rightarrow> (fault + cfloat \<times> int list) option" where
  "scan_loop buffer length' gsize global_index accumulator visited =
     (if global_index <s length' then
        (case load Buffer buffer (sint global_index) of
           Inl f \<Rightarrow> Some (Inl f)
         | Inr cell \<Rightarrow>
             (let element = ulong_to_float cell
              in scan_loop buffer length' gsize (global_index + of_nat gsize)
                   (select_min accumulator element)
                   (visited @ [sint global_index])))
      else Some (Inr (accumulator, visited)))"

text \<open>Lines 8 to 15 for the work-item with global id \<open>gid\<close>.\<close>

definition scan :: "ulong list \<Rightarrow> cint \<Rightarrow> nat \<Rightarrow> nat \<Rightarrow> (fault + cfloat \<times> int list) option" where
  "scan buffer length' gsize gid = scan_loop buffer length' gsize (of_nat gid) INFINITY []"

text \<open>
  The indices \<open>i\<close>, \<open>i + W\<close>, \<open>i + 2 * W\<close>, ... below \<open>L\<close>, as unbounded
  numbers: what the scan is meant to visit.
\<close>

function stride :: "nat \<Rightarrow> nat \<Rightarrow> nat \<Rightarrow> nat list" where
  "stride i W L = (if i < L \<and> 0 < W then i # stride (i + W) W L else [])"
  by pat_completeness auto
termination
  by (relation "measure (\<lambda>(i, W, L). L - i)") auto

section \<open>Phase 2: the tree reduction of a work-group (lines 17 to 30)\<close>

text \<open>
  Between two barriers every work-item of the group runs the same few statements on the
  shared scratch array. \<open>for_workers\<close> runs them for the work-items of the group one
  after the other, in the order of their local ids; a fault of one ends the run.
\<close>

fun for_workers :: "('s \<Rightarrow> nat \<Rightarrow> fault + 's) \<Rightarrow> nat list \<Rightarrow> 's \<Rightarrow> fault + 's" where
  "for_workers step [] s = Inr s"
| "for_workers step (lid # lids) s =
     (case step s lid of Inl f \<Rightarrow> Inl f | Inr s' \<Rightarrow> for_workers step lids s')"

text \<open>
  Lines 8 to 19 for the work-items \<open>lids\<close> of group \<open>grp\<close>: the scan, then
  \<open>scratch[local_index] = accumulator\<close>. The global id of a work-item is
  \<open>grp * lsize + lid\<close> (a launch without a global offset).
\<close>

fun scan_workers ::
  "(cfloat \<Rightarrow> ulong) \<Rightarrow> ulong list \<Rightarrow> cint \<Rightarrow> nat \<Rightarrow> nat \<Rightarrow> nat \<Rightarrow> nat list \<Rightarrow> ulong list
     \<Rightarrow> (fault + ulong list) option" where
  "scan_workers oor buffer length' gsize lsize grp [] scratch = Some (Inr scratch)"
| "scan_workers oor buffer length' gsize lsize grp (lid # lids) scratch =
     (case scan buffer length' gsize (grp * lsize + lid) of
        None \<Rightarrow> None
      | Some (Inl f) \<Rightarrow> Some (Inl f)
      | Some (Inr (accumulator, visited)) \<Rightarrow>
          (case store Scratch scratch (sint (of_nat lid :: cint)) (float_to_ulong oor accumulator) of
             Inl f \<Rightarrow> Some (Inl f)
           | Inr scratch' \<Rightarrow> scan_workers oor buffer length' gsize lsize grp lids scratch'))"

text \<open>
  Lines 24 to 28 for one work-item. \<open>local_index + offset\<close> is an \<open>int\<close> sum; both
  reads convert the cell to \<open>float\<close> and the write converts the smaller float back.
\<close>

definition reduce_step :: "(cfloat \<Rightarrow> ulong) \<Rightarrow> cint \<Rightarrow> ulong list \<Rightarrow> nat \<Rightarrow> fault + ulong list" where
  "reduce_step oor offset scratch lid =
     (let local_index = (of_nat lid :: cint) in
      if local_index <s offset then
        (case load Scratch scratch (sint (local_index + offset)) of
           Inl f \<Rightarrow> Inl f
         | Inr c1 \<Rightarrow>
             (case load Scratch scratch (sint local_index) of
                Inl f \<Rightarrow> Inl f
              | Inr c2 \<Rightarrow>
                  (let other = ulong_to_float c1; mine = ulong_to_float c2
                   in store Scratch scratch (sint local_index)
                        (float_to_ulong oor (select_min mine other)))))
      else Inr scratch)"

text \<open>
  The loop of lines 21 to 30. \<open>offset\<close> is an \<open>int\<close>; \<open>offset / 2\<close> is C's
  division, which truncates. \<open>rounds\<close> counts the rounds run; the kernel keeps no
  such counter.
\<close>

function reduce_loop ::
  "(cfloat \<Rightarrow> ulong) \<Rightarrow> nat \<Rightarrow> cint \<Rightarrow> ulong list \<Rightarrow> nat \<Rightarrow> fault + ulong list \<times> nat" where
  "reduce_loop oor lsize offset scratch rounds =
     (if 0 <s offset then
        (case for_workers (reduce_step oor offset) [0..<lsize] scratch of
           Inl f \<Rightarrow> Inl f
         | Inr scratch' \<Rightarrow>
             reduce_loop oor lsize (word_of_int (sint offset sdiv 2)) scratch' (Suc rounds))
      else Inr (scratch, rounds))"
  by pat_completeness auto

section \<open>Publication and the whole kernel (lines 31 to 33)\<close>

text \<open>Lines 31 to 33 for one work-item: \<open>output[get_group_id(0)] = scratch[0]\<close>.\<close>

definition publish :: "ulong list \<Rightarrow> nat \<Rightarrow> ulong list \<Rightarrow> nat \<Rightarrow> fault + ulong list" where
  "publish scratch grp output lid =
     (let local_index = (of_nat lid :: cint) in
      if local_index = 0 then
        (case load Scratch scratch 0 of
           Inl f \<Rightarrow> Inl f
         | Inr c \<Rightarrow> store Output output (int grp) c)
      else Inr output)"

text \<open>
  Lines 17 to 33 for a work-group whose scans have stored their accumulators: the loop
  starts at \<open>get_local_size(0) / 2\<close>, a \<open>size_t\<close> division converted to \<open>int\<close>.
  The result is the scratch array after the loop, the output, and the rounds run.
\<close>

definition reduce_group ::
  "(cfloat \<Rightarrow> ulong) \<Rightarrow> nat \<Rightarrow> nat \<Rightarrow> ulong list \<Rightarrow> ulong list
     \<Rightarrow> fault + ulong list \<times> ulong list \<times> nat" where
  "reduce_group oor lsize grp scratch output =
     (case reduce_loop oor lsize (of_nat (lsize div 2)) scratch 0 of
        Inl f \<Rightarrow> Inl f
      | Inr (scratch', rounds) \<Rightarrow>
          (case for_workers (publish scratch' grp) [0..<lsize] output of
             Inl f \<Rightarrow> Inl f
           | Inr output' \<Rightarrow> Inr (scratch', output', rounds)))"

text \<open>
  One work-group, all of its work-items: the local ids are \<open>0\<close> to \<open>lsize - 1\<close>.
  \<open>mask\<close> is a parameter of the kernel that no statement reads.
\<close>

definition run_group ::
  "(cfloat \<Rightarrow> ulong) \<Rightarrow> nat \<Rightarrow> nat \<Rightarrow> ulong list \<Rightarrow> cchar list \<Rightarrow> ulong list \<Rightarrow> cint \<Rightarrow> ulong list
     \<Rightarrow> nat \<Rightarrow> (fault + ulong list \<times> ulong list \<times> nat) option" where
  "run_group oor gsize lsize buffer mask' scratch length' output grp =
     (case scan_workers oor buffer length' gsize lsize grp [0..<lsize] scratch of
        None \<Rightarrow> None
      | Some (Inl f) \<Rightarrow> Some (Inl f)
      | Some (Inr scratch') \<Rightarrow> Some (reduce_group oor lsize grp scratch' output))"

text \<open>
  The work-groups of a launch, one after the other. Local memory belongs to a group:
  each group starts from the same contents \<open>scratch\<close>, and only \<open>output\<close> is
  shared.
\<close>

fun run_groups ::
  "(cfloat \<Rightarrow> ulong) \<Rightarrow> nat \<Rightarrow> nat \<Rightarrow> ulong list \<Rightarrow> cchar list \<Rightarrow> ulong list \<Rightarrow> cint \<Rightarrow> nat list
     \<Rightarrow> ulong list \<Rightarrow> (fault + ulong list) option" where
  "run_groups oor gsize lsize buffer mask' scratch length' [] output = Some (Inr output)"
| "run_groups oor gsize lsize buffer mask' scratch length' (grp # grps) output =
     (case run_group oor gsize lsize buffer mask' scratch length' output grp of
        None \<Rightarrow> None
      | Some (Inl f) \<Rightarrow> Some (Inl f)
      | Some (Inr (scratch', output', rounds)) \<Rightarrow>
          run_groups oor gsize lsize buffer mask' scratch length' grps output')"

text \<open>
  The kernel, launched with \<open>gsize\<close> work-items in groups of \<open>lsize\<close> on a device
  whose out-of-range conversions are \<open>oor\<close>: the output array when every group has
  finished.
\<close>

definition pir ::
  "(cfloat \<Rightarrow> ulong) \<Rightarrow> nat \<Rightarrow> nat \<Rightarrow> ulong list \<Rightarrow> cchar list \<Rightarrow> ulong list \<Rightarrow> cint \<Rightarrow> ulong list
     \<Rightarrow> (fault + ulong list) option" where
  "pir oor gsize lsize buffer mask' scratch length' output =
     run_groups oor gsize lsize buffer mask' scratch length' [0..<gsize div lsize] output"

section \<open>The reduction as a simultaneous update\<close>

text \<open>
  In a round with offset \<open>off\<close> the work-item \<open>j < off\<close> reads the cells \<open>j\<close> and
  \<open>j + off\<close> and writes the cell \<open>j\<close>; no cell is read by one work-item and
  written by another. \<open>tree_round\<close> is the round as one update of all cells at once,
  and \<open>tree_loop\<close> the rounds with the offsets \<open>off\<close>, \<open>off div 2\<close>, ... as
  unbounded numbers. The loop of the kernel is compared with them below.
\<close>

definition tree_round :: "(cfloat \<Rightarrow> ulong) \<Rightarrow> nat \<Rightarrow> ulong list \<Rightarrow> ulong list" where
  "tree_round oor off s =
     map (\<lambda>j. if j < off
               then float_to_ulong oor
                      (select_min (ulong_to_float (s ! j)) (ulong_to_float (s ! (j + off))))
               else s ! j)
         [0..<length s]"

fun tree_loop :: "(cfloat \<Rightarrow> ulong) \<Rightarrow> nat \<Rightarrow> ulong list \<Rightarrow> ulong list" where
  "tree_loop oor off s = (if off = 0 then s else tree_loop oor (off div 2) (tree_round oor off s))"

text \<open>
  The cells that the halving folds into cell 0 for a group of \<open>N\<close> work-items: all
  \<open>N\<close> cells when \<open>N\<close> is a power of two, fewer otherwise.
\<close>

fun tree_cells :: "nat \<Rightarrow> nat list" where
  "tree_cells N =
     (if N < 2 then [0]
      else tree_cells (N div 2) @ map (\<lambda>i. i + N div 2) (tree_cells (N div 2)))"

text \<open>
  The accumulator of the work-item \<open>g\<close> after a scan whose index does not overflow:
  the fold of line 13 over the stride.
\<close>

definition stride_accumulator :: "ulong list \<Rightarrow> nat \<Rightarrow> nat \<Rightarrow> nat \<Rightarrow> cfloat" where
  "stride_accumulator buffer W L g =
     foldl (\<lambda>a j. select_min a (ulong_to_float (buffer ! j))) INFINITY (stride g W L)"

text \<open>
  The scratch array of group \<open>grp\<close> when its \<open>N\<close> work-items have stored their
  accumulators (line 19): the cells from \<open>N\<close> on are as they were.
\<close>

definition stored_accumulators ::
  "(cfloat \<Rightarrow> ulong) \<Rightarrow> ulong list \<Rightarrow> nat \<Rightarrow> nat \<Rightarrow> nat \<Rightarrow> ulong list \<Rightarrow> nat \<Rightarrow> ulong list" where
  "stored_accumulators oor buffer W N L scratch grp =
     map (\<lambda>lid. float_to_ulong oor (stride_accumulator buffer W L (grp * N + lid))) [0..<N]
       @ drop N scratch"

text \<open>
  The rounding of \<open>binary32_of_nat\<close>, by name, for the proofs about the conversion.
  For a number of 25 bits or more \<open>round_mantissa\<close> is its significand of 24 bits
  after the rounding (\<open>2 ^ 24\<close> when the rounding carries into the exponent), and
  \<open>nearest_float\<close> is the number that the nearest float stands for.
\<close>

definition round_mantissa :: "nat \<Rightarrow> nat" where
  "round_mantissa n =
     (let s = ilog2 n - 23; q = n div 2 ^ s; r = n mod 2 ^ s; h = 2 ^ (s - 1)
      in if h < r \<or> (r = h \<and> odd q) then q + 1 else q)"

definition nearest_float :: "nat \<Rightarrow> nat" where
  "nearest_float n = (if n < 2 ^ 24 then n else round_mantissa n * 2 ^ (ilog2 n - 23))"

section \<open>Termination of the reduction loop\<close>

lemma halve_offset:
  assumes "0 <s (offset :: cint)"
  shows "sint (word_of_int (sint offset sdiv 2) :: cint) = sint offset div 2"
proof -
  have pos: "0 < sint offset" using assms by (simp add: word_sless_alt)
  have lt: "sint offset < 2 ^ 31" using sint_lt [of offset] by simp
  have "sint offset sdiv 2 = sint offset div 2"
    using pos by (simp add: signed_divide_int_def sgn_if)
  moreover have "sint (word_of_int (sint offset div 2) :: cint) = sint offset div 2"
    using pos lt by (simp add: sint_sbintrunc' signed_take_bit_int_eq_self)
  ultimately show ?thesis by simp
qed

termination reduce_loop
  by (relation "measure (\<lambda>(oor, lsize, offset, scratch, rounds). nat (sint offset))")
     (auto simp: halve_offset word_sless_alt)

section \<open>Facts about the conversions\<close>

declare ilog2.simps [simp del] stride.simps [simp del] reduce_loop.simps [simp del]
  tree_loop.simps [simp del] tree_cells.simps [simp del]

text \<open>The equations that evaluate the conversions and the kernel on concrete inputs.\<close>

lemmas float_eval = ulong_to_float_def binary32_of_nat_def float_to_ulong_def float_lt_def
  select_min_def float_isnan_def float_exp_def float_frac_def float_sign_def float_mag_def
  INFINITY_def Let_def ilog2.simps

lemmas kernel_eval = pir_def run_group_def reduce_group_def publish_def reduce_loop.simps
  reduce_step_def scan_def scan_loop.simps load_def store_def word_sless_alt

lemma ilog2_bounds: "0 < n \<Longrightarrow> 2 ^ ilog2 n \<le> n \<and> n < 2 * 2 ^ ilog2 n"
proof (induction n rule: ilog2.induct)
  case (1 n)
  show ?case
  proof (cases "n < 2")
    case True
    with "1.prems" have "n = 1" by simp
    then show ?thesis by (simp add: ilog2.simps)
  next
    case False
    then have IH: "2 ^ ilog2 (n div 2) \<le> n div 2 \<and> n div 2 < 2 * 2 ^ ilog2 (n div 2)"
      using "1.IH" by simp
    have "ilog2 n = Suc (ilog2 (n div 2))"
      using False by (subst ilog2.simps) simp
    then show ?thesis using IH by simp linarith
  qed
qed

lemma ilog2_less: "0 < n \<Longrightarrow> n < 2 ^ k \<Longrightarrow> ilog2 n < k"
proof -
  assume "0 < n" "n < 2 ^ k"
  then have "(2::nat) ^ ilog2 n < 2 ^ k" using ilog2_bounds [of n] by linarith
  then show ?thesis by simp
qed

lemma unat_of_nat32: "k < 2 ^ 32 \<Longrightarrow> unat (of_nat k :: cfloat) = k"
  by (simp add: unat_of_nat)

lemma pattern_fields:
  assumes k: "k = E * 2 ^ 23 + f" and f: "f < 2 ^ 23" and E: "E < 255"
  shows "float_exp (of_nat k) = E"
    and "float_frac (of_nat k) = f"
    and "\<not> float_sign (of_nat k)"
    and "float_mag (of_nat k) = k"
    and "\<not> float_isnan (of_nat k)"
    and "unat (of_nat k :: cfloat) = k"
proof -
  have lt: "k < 255 * 2 ^ 23" using assms by simp
  then show u: "unat (of_nat k :: cfloat) = k" by (simp add: unat_of_nat32)
  show e: "float_exp (of_nat k) = E"
    unfolding float_exp_def u using f E by (simp add: k)
  show "float_frac (of_nat k) = f"
    unfolding float_frac_def u using f by (simp add: k)
  show "\<not> float_sign (of_nat k)"
    using lt by (simp add: float_sign_def u)
  show "float_mag (of_nat k) = k"
    using lt by (simp add: float_mag_def u)
  show "\<not> float_isnan (of_nat k)"
    using E by (simp add: float_isnan_def e)
qed

text \<open>Numbers below \<open>2 ^ 24\<close>: the significand is the number, shifted.\<close>

lemma small_significand:
  assumes "0 < n" "n < 2 ^ 24"
  shows "ilog2 n \<le> 23" and "2 ^ 23 \<le> n * 2 ^ (23 - ilog2 n)" and "n * 2 ^ (23 - ilog2 n) < 2 ^ 24"
proof -
  let ?e = "ilog2 n"
  have b: "2 ^ ?e \<le> n" "n < 2 * 2 ^ ?e" using ilog2_bounds [OF assms(1)] by simp_all
  show e: "?e \<le> 23" using ilog2_less [OF assms] by simp
  have p: "(2::nat) ^ ?e * 2 ^ (23 - ?e) = 2 ^ 23"
    using e by (simp flip: power_add)
  have "2 ^ ?e * 2 ^ (23 - ?e) \<le> n * 2 ^ (23 - ?e)"
    using b(1) by (rule mult_le_mono1)
  then show "2 ^ 23 \<le> n * 2 ^ (23 - ?e)" by (simp only: p)
  have "n * 2 ^ (23 - ?e) < (2 * 2 ^ ?e) * 2 ^ (23 - ?e)"
    using b(2) by (simp add: mult_less_mono1)
  also have "\<dots> = 2 * (2 ^ ?e * 2 ^ (23 - ?e))" by (simp only: mult.assoc)
  also have "\<dots> = 2 ^ 24" by (simp only: p) simp
  finally show "n * 2 ^ (23 - ?e) < 2 ^ 24" .
qed

lemma binary32_small:
  assumes "0 < n" "n < 2 ^ 24"
  shows "binary32_of_nat n = (ilog2 n + 127) * 2 ^ 23 + (n * 2 ^ (23 - ilog2 n) - 2 ^ 23)"
  using assms small_significand(1) [OF assms] by (simp add: binary32_of_nat_def Let_def)

lemma float_to_ulong_small:
  assumes "unat w < 2 ^ 24"
  shows "float_to_ulong oor (ulong_to_float w) = w"
proof (cases "unat w = 0")
  case True
  then have "w = 0" by (simp add: unat_0_iff)
  then show ?thesis
    by (simp add: ulong_to_float_def binary32_of_nat_def float_to_ulong_def float_exp_def)
next
  case False
  define n where "n = unat w"
  define e where "e = ilog2 n"
  define f where "f = n * 2 ^ (23 - e) - 2 ^ 23"
  have n: "0 < n" "n < 2 ^ 24" using False assms by (simp_all add: n_def)
  note s = small_significand [OF n, folded e_def]
  have k: "binary32_of_nat n = (e + 127) * 2 ^ 23 + f"
    using binary32_small [OF n] by (simp add: e_def f_def)
  have f: "f < 2 ^ 23" using s by (simp add: f_def)
  have E: "e + 127 < 255" using s by simp
  note pf = pattern_fields [OF k f E]
  have sig: "f + 2 ^ 23 = n * 2 ^ (23 - e)" using s by (simp add: f_def)
  have "float_to_ulong oor (of_nat (binary32_of_nat n)) = of_nat (n * 2 ^ (23 - e) div 2 ^ (23 - e))"
    using s(1) sig by (simp add: float_to_ulong_def pf Let_def)
  then show ?thesis by (simp add: ulong_to_float_def n_def)
qed


lemma ilog2_mono:
  assumes "0 < a" "a \<le> b"
  shows "ilog2 a \<le> ilog2 b"
proof -
  have "0 < b" using assms by simp
  then have "(2::nat) ^ ilog2 a < 2 ^ Suc (ilog2 b)"
    using ilog2_bounds [OF assms(1)] ilog2_bounds [of b] assms(2) by simp
  then have "ilog2 a < Suc (ilog2 b)" by (simp only: power_strict_increasing_iff)
  then show ?thesis by simp
qed

text \<open>Every pattern below that of the infinity is a finite, non-negative float.\<close>

lemma finite_fields:
  assumes "k < 255 * 2 ^ 23"
  shows "float_exp (of_nat k) = k div 2 ^ 23"
    and "float_frac (of_nat k) = k mod 2 ^ 23"
    and "\<not> float_sign (of_nat k)"
    and "float_mag (of_nat k) = k"
    and "\<not> float_isnan (of_nat k)"
    and "unat (of_nat k :: cfloat) = k"
proof -
  have k: "k = (k div 2 ^ 23) * 2 ^ 23 + k mod 2 ^ 23" by simp
  have f: "k mod 2 ^ 23 < 2 ^ 23" by simp
  have E: "k div 2 ^ 23 < 255" using assms by (simp add: less_mult_imp_div_less)
  note pf = pattern_fields [OF k f E]
  show "float_exp (of_nat k) = k div 2 ^ 23" by (rule pf)
  show "float_frac (of_nat k) = k mod 2 ^ 23" by (rule pf)
  show "\<not> float_sign (of_nat k)" by (rule pf)
  show "float_mag (of_nat k) = k" by (rule pf)
  show "\<not> float_isnan (of_nat k)" by (rule pf)
  show "unat (of_nat k :: cfloat) = k" by (rule pf)
qed

lemma float_lt_finite:
  assumes "a < 255 * 2 ^ 23" "b < 255 * 2 ^ 23"
  shows "float_lt (of_nat a) (of_nat b) = (a < b)"
  by (simp add: float_lt_def finite_fields [OF assms(1)] finite_fields [OF assms(2)])

lemma above_INFINITY_is_nan:
  fixes y :: nat
  assumes "y < 2 ^ 31" "255 * 2 ^ 23 < y"
  shows "y div 2 ^ 23 mod 2 ^ 8 = 255 \<and> y mod 2 ^ 23 \<noteq> 0"
proof -
  have d: "y div 2 ^ 23 = 255"
  proof -
    have "y div 2 ^ 23 < 256" using assms(1) by (simp add: less_mult_imp_div_less)
    moreover have "255 \<le> y div 2 ^ 23" using assms(2) by (simp add: less_eq_div_iff_mult_less_eq)
    ultimately show ?thesis by simp
  qed
  have "y = (y div 2 ^ 23) * 2 ^ 23 + y mod 2 ^ 23" by simp
  then have "y mod 2 ^ 23 \<noteq> 0" using assms(2) unfolding d by linarith
  then show ?thesis using d by simp
qed

lemma float_lt_INFINITY_left: "\<not> float_lt INFINITY x"
proof (cases "float_isnan x \<or> float_sign x")
  case True
  then show ?thesis by (auto simp: float_lt_def INFINITY_def float_sign_def)
next
  case False
  then have s: "unat x < 2 ^ 31" and n: "\<not> float_isnan x" by (simp_all add: float_sign_def)
  have "\<not> 255 * 2 ^ 23 < unat x"
    using above_INFINITY_is_nan [OF s] n by (auto simp: float_isnan_def float_exp_def float_frac_def)
  then show ?thesis using s by (simp add: float_lt_def INFINITY_def float_sign_def float_mag_def)
qed


lemma binary32_small_mono:
  assumes "a < b" "b < 2 ^ 24"
  shows "binary32_of_nat a < binary32_of_nat b"
proof -
  have b: "0 < b" using assms by simp
  note sb = small_significand [OF b assms(2)]
  note eb = binary32_small [OF b assms(2)]
  show ?thesis
  proof (cases "a = 0")
    case True
    then show ?thesis using eb by (simp add: binary32_of_nat_def)
  next
    case False
    then have a: "0 < a" "a < 2 ^ 24" using assms by simp_all
    note sa = small_significand [OF a]
    note ea = binary32_small [OF a]
    have le: "ilog2 a \<le> ilog2 b" using ilog2_mono [OF a(1)] assms(1) by simp
    show ?thesis
    proof (cases "ilog2 a = ilog2 b")
      case True
      have "a * 2 ^ (23 - ilog2 b) < b * 2 ^ (23 - ilog2 b)"
        using assms(1) by simp
      then show ?thesis using sa sb ea eb True by simp
    next
      case False
      then have "ilog2 a + 1 \<le> ilog2 b" using le by simp
      then show ?thesis using sa sb ea eb by simp
    qed
  qed
qed

lemma binary32_small_bound:
  assumes "n < 2 ^ 24"
  shows "binary32_of_nat n < 255 * 2 ^ 23"
proof (cases "n = 0")
  case True
  then show ?thesis by (simp add: binary32_of_nat_def)
next
  case False
  then have n: "0 < n" by simp
  show ?thesis
    using small_significand [OF n assms] binary32_small [OF n assms] by simp
qed

text \<open>The conversion of a cell: never above \<open>2 ^ 64\<close>, whose exponent is 191.\<close>

lemma binary32_bound:
  assumes "n < 2 ^ 64"
  shows "binary32_of_nat n \<le> 191 * 2 ^ 23"
proof (cases "n < 2 ^ 24")
  case True
  show ?thesis
  proof (cases "n = 0")
    case True
    then show ?thesis by (simp add: binary32_of_nat_def)
  next
    case False
    then have n: "0 < n" by simp
    show ?thesis
      using small_significand [OF n True] binary32_small [OF n True] by simp
  qed
next
  case False
  then have n: "0 < n" by simp
  define e where "e = ilog2 n"
  define s where "s = e - 23"
  define q where "q = n div 2 ^ s"
  have b: "2 ^ e \<le> n" "n < 2 * 2 ^ e" using ilog2_bounds [OF n] by (simp_all add: e_def)
  have e63: "e < 64" using ilog2_less [OF n assms] by (simp add: e_def)
  have e23: "23 < e"
  proof (rule ccontr)
    assume "\<not> 23 < e"
    then have "e + 1 \<le> 24" by simp
    then have "(2::nat) ^ (e + 1) \<le> 2 ^ 24" by (rule power_increasing) simp
    then show False using b(2) False by simp
  qed
  have "e = 23 + s" using e23 by (simp add: s_def)
  then have p: "(2::nat) ^ e = 2 ^ 23 * 2 ^ s" by (simp only: power_add)
  have "q < 2 ^ 24"
  proof -
    have "n < 2 ^ 24 * 2 ^ s" using b(2) p by simp
    then show ?thesis unfolding q_def by (rule less_mult_imp_div_less)
  qed
  then have m: "(if c then q + 1 else q) - 2 ^ 23 \<le> 2 ^ 23" for c by auto
  have "binary32_of_nat n = (e + 127) * 2 ^ 23
      + ((if 2 ^ (s - 1) < n mod 2 ^ s \<or> (n mod 2 ^ s = 2 ^ (s - 1) \<and> odd q) then q + 1 else q) - 2 ^ 23)"
    using n e23 by (simp add: binary32_of_nat_def Let_def e_def [symmetric] s_def [symmetric] q_def [symmetric])
  also have "\<dots> \<le> (e + 127) * 2 ^ 23 + 2 ^ 23" using m by (simp del: One_nat_def)
  also have "\<dots> \<le> 191 * 2 ^ 23" using e63 by simp
  finally show ?thesis .
qed

lemma ulong_to_float_finite:
  "binary32_of_nat (unat (w :: ulong)) < 255 * 2 ^ 23"
proof -
  have "unat w < 2 ^ 64" using unsigned_less [of w] by simp
  then show ?thesis using binary32_bound [of "unat w"] by simp
qed

lemma ulong_to_float_below_INFINITY: "float_lt (ulong_to_float w) INFINITY"
proof -
  have "float_lt (ulong_to_float w) (of_nat (255 * 2 ^ 23))
      = (binary32_of_nat (unat w) < 255 * 2 ^ 23)"
    unfolding ulong_to_float_def
    using ulong_to_float_finite [of w]
    by (simp add: float_lt_def finite_fields float_isnan_def float_exp_def float_frac_def
          float_sign_def float_mag_def)
  then show ?thesis using ulong_to_float_finite [of w] by (simp add: INFINITY_def)
qed

lemma ulong_to_float_not_INFINITY: "ulong_to_float w \<noteq> INFINITY"
proof
  assume "ulong_to_float w = INFINITY"
  then have "float_lt INFINITY INFINITY" using ulong_to_float_below_INFINITY [of w] by simp
  then show False by (simp add: float_lt_INFINITY_left)
qed

text \<open>The conversions of the cells 5, 3 and 1, evaluated once.\<close>

lemma conversions_5_3_1:
  "ulong_to_float 5 = 0x40A00000" "ulong_to_float 3 = 0x40400000" "ulong_to_float 1 = 0x3F800000"
  "float_to_ulong oor 0x40A00000 = 5" "float_to_ulong oor 0x40400000 = 3"
  "float_to_ulong oor 0x3F800000 = 1"
  "select_min 0x40A00000 0x40400000 = 0x40400000" "select_min 0x40400000 0x3F800000 = 0x3F800000"
  "select_min 0x40400000 0x40A00000 = 0x40400000"
  "float_to_ulong oor_sat INFINITY = 0xFFFFFFFFFFFFFFFF"
  by (simp_all add: float_eval oor_sat_def)

text \<open>Two cells above \<open>2 ^ 24\<close> that no float equals, evaluated once.\<close>

lemma conversions_rounded:
  "ulong_to_float 16777217 = 0x4B800000" "ulong_to_float 16777221 = 0x4B800002"
  "float_to_ulong oor 0x4B800000 = 16777216" "float_to_ulong oor 0x4B800002 = 16777220"
  by (simp_all add: float_eval)

text \<open>Cells at the edges of the range, and an even cell of 25 bits, evaluated once.\<close>

lemma conversions_edge:
  "ulong_to_float 0 = 0" "ulong_to_float 0xFFFFFFFFFFFFFFFF = 0x5F800000"
  "float_to_ulong oor 0 = 0" "float_to_ulong oor_zero 0x5F800000 = 0"
  "float_to_ulong oor_zero INFINITY = 0"
  "select_min 0x40A00000 0 = 0" "select_min 0x40A00000 0x5F800000 = 0x40A00000"
  "select_min 0x40A00000 INFINITY = 0x40A00000"
  "ulong_to_float 16777218 = 0x4B800001" "float_to_ulong oor 0x4B800001 = 16777218"
  "ulong_to_float 0xFFFFFF7FFFFFFFFF = 0x5F7FFFFF" "ulong_to_float 0xFFFFFF8000000000 = 0x5F800000"
  by (simp_all add: float_eval oor_zero_def)

section \<open>Rounding to the nearest float\<close>

text \<open>
  The conversion of a number of 25 bits or more: the exponent is the position of its
  leading bit and the significand is \<open>round_mantissa\<close>. The conversion is monotone,
  and so is the number that the result stands for.
\<close>

lemma ilog2_unique:
  assumes "2 ^ k \<le> n" "n < 2 * 2 ^ k"
  shows "ilog2 n = k"
proof -
  have n: "0 < n" using assms(1) by (cases "n = 0") simp_all
  have b: "2 ^ ilog2 n \<le> n" "n < 2 * 2 ^ ilog2 n" using ilog2_bounds [OF n] by simp_all
  have "(2::nat) ^ k < 2 ^ Suc (ilog2 n)" using assms(1) b(2) by simp
  then have 1: "k < Suc (ilog2 n)" by (simp only: power_strict_increasing_iff)
  have "(2::nat) ^ ilog2 n < 2 ^ Suc k" using assms(2) b(1) by simp
  then have 2: "ilog2 n < Suc k" by (simp only: power_strict_increasing_iff)
  show ?thesis using 1 2 by simp
qed

lemma large_exponent:
  assumes "2 ^ 24 \<le> n"
  shows "23 < ilog2 n"
proof -
  have "ilog2 (2 ^ 24) \<le> ilog2 n" using assms by (intro ilog2_mono) simp_all
  moreover have "ilog2 (2 ^ 24) = 24" by (rule ilog2_unique) simp_all
  ultimately show ?thesis by simp
qed

lemma large_fields:
  assumes "2 ^ 24 \<le> n"
  defines "s \<equiv> ilog2 n - 23"
  shows "0 < s" and "ilog2 n = 23 + s"
    and "2 ^ 23 \<le> n div 2 ^ s" and "n div 2 ^ s < 2 ^ 24"
    and "n div 2 ^ s \<le> round_mantissa n" and "round_mantissa n \<le> n div 2 ^ s + 1"
    and "binary32_of_nat n = (ilog2 n + 126) * 2 ^ 23 + round_mantissa n"
proof -
  have n: "0 < n" using assms(1) by (cases "n = 0") simp_all
  have e: "23 < ilog2 n" using assms(1) by (rule large_exponent)
  show s: "0 < s" using e by (simp add: s_def)
  show es: "ilog2 n = 23 + s" using e by (simp add: s_def)
  have b: "2 ^ 23 * 2 ^ s \<le> n" "n < 2 ^ 24 * 2 ^ s"
    using ilog2_bounds [OF n] unfolding es by (simp_all add: power_add)
  show q1: "2 ^ 23 \<le> n div 2 ^ s" using b(1) by (simp add: less_eq_div_iff_mult_less_eq)
  show "n div 2 ^ s < 2 ^ 24" using b(2) by (rule less_mult_imp_div_less)
  show m1: "n div 2 ^ s \<le> round_mantissa n"
    by (simp add: round_mantissa_def Let_def s_def)
  show "round_mantissa n \<le> n div 2 ^ s + 1"
    by (simp add: round_mantissa_def Let_def s_def)
  have "binary32_of_nat n = (ilog2 n + 127) * 2 ^ 23 + (round_mantissa n - 2 ^ 23)"
    using n e by (simp add: binary32_of_nat_def round_mantissa_def Let_def)
  then show "binary32_of_nat n = (ilog2 n + 126) * 2 ^ 23 + round_mantissa n"
    using q1 m1 by simp
qed


lemma round_mantissa_mono:
  assumes "2 ^ 24 \<le> a" "a \<le> b" "ilog2 a = ilog2 b"
  shows "round_mantissa a \<le> round_mantissa b"
proof -
  define s where "s = ilog2 a - 23"
  have b24: "2 ^ 24 \<le> b" using assms by simp
  note fa = large_fields [OF assms(1), folded s_def]
  note fb = large_fields [OF b24, folded assms(3), folded s_def]
  have q: "a div 2 ^ s \<le> b div 2 ^ s" using assms(2) by (rule div_le_mono)
  show ?thesis
  proof (cases "a div 2 ^ s < b div 2 ^ s")
    case True
    then show ?thesis using fa(6) fb(5) by simp
  next
    case False
    then have eq: "a div 2 ^ s = b div 2 ^ s" using q by simp
    have "a = a div 2 ^ s * 2 ^ s + a mod 2 ^ s" "b = b div 2 ^ s * 2 ^ s + b mod 2 ^ s"
      by (simp_all only: div_mult_mod_eq)
    then have r: "a mod 2 ^ s \<le> b mod 2 ^ s" using assms(2) unfolding eq by linarith
    show ?thesis
      using r unfolding round_mantissa_def Let_def assms(3) [symmetric] s_def [symmetric] eq
      by auto
  qed
qed

lemma rounding_mono:
  assumes "a \<le> b"
  shows "binary32_of_nat a \<le> binary32_of_nat b" and "nearest_float a \<le> nearest_float b"
proof -
  have "binary32_of_nat a \<le> binary32_of_nat b \<and> nearest_float a \<le> nearest_float b"
  proof (cases "b < 2 ^ 24")
    case True
    then have a: "a < 2 ^ 24" using assms by simp
    have "binary32_of_nat a \<le> binary32_of_nat b"
    proof (cases "a = b")
      case True
      then show ?thesis by simp
    next
      case False
      then have "a < b" using assms by simp
      then have "binary32_of_nat a < binary32_of_nat b" using True by (rule binary32_small_mono)
      then show ?thesis by simp
    qed
    then show ?thesis using True a assms by (simp add: nearest_float_def)
  next
    case False
    then have b24: "2 ^ 24 \<le> b" by simp
    define sb where "sb = ilog2 b - 23"
    note fb = large_fields [OF b24, folded sb_def]
    have vb: "2 ^ 23 * 2 ^ sb \<le> round_mantissa b * 2 ^ sb"
      using fb(3,5) by (intro mult_le_mono1) simp
    show ?thesis
    proof (cases "a < 2 ^ 24")
      case True
      have "binary32_of_nat a < 151 * 2 ^ 23"
      proof (cases "a = 0")
        case True
        then show ?thesis by (simp add: binary32_of_nat_def)
      next
        case False
        then have a: "0 < a" by simp
        show ?thesis using small_significand [OF a True] binary32_small [OF a True] by simp
      qed
      moreover have "151 * 2 ^ 23 \<le> binary32_of_nat b"
        unfolding fb(7) fb(2) using fb(1,3,5) by simp
      moreover have "nearest_float a \<le> nearest_float b"
      proof -
        have "(2::nat) ^ 24 \<le> 2 ^ 23 * 2 ^ sb"
          using fb(1) power_increasing [of 1 sb "2::nat"] by simp
        then have "2 ^ 24 \<le> round_mantissa b * 2 ^ sb" using vb by (rule le_trans)
        then show ?thesis using True False by (simp add: nearest_float_def sb_def)
      qed
      ultimately show ?thesis by simp
    next
      case a: False
      then have a24: "2 ^ 24 \<le> a" by simp
      define sa where "sa = ilog2 a - 23"
      note fa = large_fields [OF a24, folded sa_def]
      have a0: "0 < a" using a24 by (cases "a = 0") simp_all
      have le: "ilog2 a \<le> ilog2 b" using a0 assms by (rule ilog2_mono)
      have na: "nearest_float a = round_mantissa a * 2 ^ sa"
        using a by (simp add: nearest_float_def sa_def)
      have nb: "nearest_float b = round_mantissa b * 2 ^ sb"
        using False by (simp add: nearest_float_def sb_def)
      show ?thesis
      proof (cases "ilog2 a = ilog2 b")
        case True
        have m: "round_mantissa a \<le> round_mantissa b"
          using a24 assms True by (rule round_mantissa_mono)
        have "sa = sb" using True by (simp add: sa_def sb_def)
        then show ?thesis unfolding fa(7) fb(7) na nb using m True by simp
      next
        case ne: False
        then have lt: "sa + 1 \<le> sb" using le fa(2) fb(2) by simp
        have ma: "round_mantissa a \<le> 2 ^ 24" using fa(4,6) by simp
        have "binary32_of_nat a \<le> (ilog2 a + 126) * 2 ^ 23 + 2 ^ 24"
          unfolding fa(7) using ma by simp
        also have "\<dots> \<le> (ilog2 b + 126) * 2 ^ 23 + 2 ^ 23"
          using lt fa(2) fb(2) by simp
        also have "\<dots> \<le> binary32_of_nat b"
          unfolding fb(7) using fb(3,5) by simp
        finally have 1: "binary32_of_nat a \<le> binary32_of_nat b" .
        have "round_mantissa a * 2 ^ sa \<le> 2 ^ 24 * 2 ^ sa"
          using ma by (rule mult_le_mono1)
        also have "\<dots> = 2 ^ 23 * 2 ^ (sa + 1)" by simp
        also have "\<dots> \<le> 2 ^ 23 * 2 ^ sb"
          using lt by (intro mult_le_mono2 power_increasing) simp_all
        also have "\<dots> \<le> round_mantissa b * 2 ^ sb" by (rule vb)
        finally have 2: "nearest_float a \<le> nearest_float b" unfolding na nb .
        show ?thesis using 1 2 by simp
      qed
    qed
  qed
  then show "binary32_of_nat a \<le> binary32_of_nat b" and "nearest_float a \<le> nearest_float b"
    by simp_all
qed


lemma in_range_fields:
  assumes "2 ^ 24 \<le> n" "n < 2 ^ 64 - 2 ^ 39"
  shows "ilog2 n \<le> 63" and "ilog2 n = 63 \<Longrightarrow> round_mantissa n < 2 ^ 24"
proof -
  have n: "0 < n" using assms(1) by (cases "n = 0") simp_all
  have "n < 2 ^ 64" using assms(2) by simp
  then have "ilog2 n < 64" using n by (intro ilog2_less) simp_all
  then show "ilog2 n \<le> 63" by simp
  show "round_mantissa n < 2 ^ 24" if e: "ilog2 n = 63"
  proof -
    note f = large_fields [OF assms(1), unfolded e]
    have d: "n = n div 2 ^ 40 * 2 ^ 40 + n mod 2 ^ 40" by (simp only: div_mult_mod_eq)
    show ?thesis
    proof (cases "n div 2 ^ 40 = 2 ^ 24 - 1")
      case True
      have "n mod 2 ^ 40 < 2 ^ 39" using d assms(2) unfolding True by simp
      then show ?thesis using True by (simp add: round_mantissa_def e Let_def)
    next
      case False
      then have "n div 2 ^ 40 + 1 < 2 ^ 24" using f(4) by simp
      then show ?thesis using f(6) by simp
    qed
  qed
qed

lemma in_range_pattern:
  assumes "n < 2 ^ 64 - 2 ^ 39"
  shows "binary32_of_nat n < 191 * 2 ^ 23"
proof (cases "n < 2 ^ 24")
  case True
  show ?thesis
  proof (cases "n = 0")
    case True
    then show ?thesis by (simp add: binary32_of_nat_def)
  next
    case False
    then have n: "0 < n" by simp
    show ?thesis using small_significand [OF n True] binary32_small [OF n True] by simp
  qed
next
  case False
  then have n24: "2 ^ 24 \<le> n" by simp
  note f = large_fields [OF n24]
  note r = in_range_fields [OF n24 assms]
  show ?thesis
  proof (cases "ilog2 n = 63")
    case True
    then show ?thesis unfolding f(7) using r(2) by simp
  next
    case False
    then have "ilog2 n \<le> 62" using r(1) by simp
    then show ?thesis unfolding f(7) using f(4,6) by simp
  qed
qed

lemma nearest_float_value:
  assumes "unat (c :: ulong) < 2 ^ 64 - 2 ^ 39"
  shows "float_to_ulong oor (ulong_to_float c) = of_nat (nearest_float (unat c))"
    and "nearest_float (unat c) < 2 ^ 64"
proof -
  define n where "n = unat c"
  have u: "ulong_to_float c = of_nat (binary32_of_nat n)"
    by (simp add: ulong_to_float_def n_def)
  have "float_to_ulong oor (ulong_to_float c) = of_nat (nearest_float n) \<and> nearest_float n < 2 ^ 64"
  proof (cases "n < 2 ^ 24")
    case True
    then show ?thesis
      using float_to_ulong_small [of c oor] by (simp add: nearest_float_def n_def)
  next
    case False
    then have n24: "2 ^ 24 \<le> n" by simp
    define e where "e = ilog2 n"
    define s where "s = e - 23"
    define m where "m = round_mantissa n"
    note f = large_fields [OF n24, folded e_def, folded s_def m_def]
    note r = in_range_fields [OF n24 assms [folded n_def], folded e_def m_def]
    have near: "nearest_float n = m * 2 ^ s"
      using False by (simp add: nearest_float_def m_def s_def e_def)
    have m24: "m \<le> 2 ^ 24" using f(4,6) by simp
    show ?thesis
    proof (cases "m < 2 ^ 24")
      case True
      have k: "binary32_of_nat n = (e + 127) * 2 ^ 23 + (m - 2 ^ 23)"
        unfolding f(7) using f(3,5) by simp
      have fr: "m - 2 ^ 23 < 2 ^ 23" using True by simp
      have E: "e + 127 < 255" using r(1) by simp
      note pf = pattern_fields [OF k fr E]
      have sig: "m - 2 ^ 23 + 2 ^ 23 = m" using f(3,5) by simp
      have "float_to_ulong oor (of_nat (binary32_of_nat n)) = of_nat (m * 2 ^ s)"
        using r(1) f(1,2) sig by (simp add: float_to_ulong_def pf Let_def)
      moreover have "m * 2 ^ s < 2 ^ 64"
      proof -
        have "m * 2 ^ s < 2 ^ 24 * 2 ^ s" using True by simp
        also have "\<dots> = 2 ^ (24 + s)" by (simp only: power_add)
        also have "\<dots> \<le> 2 ^ 64" using r(1) f(2) by (intro power_increasing) simp_all
        finally show ?thesis .
      qed
      ultimately show ?thesis unfolding u near by simp
    next
      case False
      then have m: "m = 2 ^ 24" using m24 by simp
      have e62: "e \<le> 62" using r m by (cases "e = 63") simp_all
      have k: "binary32_of_nat n = (e + 128) * 2 ^ 23 + 0"
        unfolding f(7) m by simp
      have E: "e + 128 < 255" using e62 by simp
      note pf = pattern_fields [OF k _ E]
      have v: "float_to_ulong oor (of_nat (binary32_of_nat n)) = of_nat (2 ^ 23 * 2 ^ (e - 22))"
        using e62 f(1,2) by (simp add: float_to_ulong_def pf Let_def)
      have p: "(2::nat) ^ 23 * 2 ^ (e - 22) = 2 ^ 24 * 2 ^ s"
      proof -
        have "e - 22 = Suc s" using f(1,2) by simp
        then show ?thesis by simp
      qed
      have "(2::nat) ^ 24 * 2 ^ s < 2 ^ 64"
      proof -
        have "(2::nat) ^ 24 * 2 ^ s = 2 ^ (24 + s)" by (simp only: power_add)
        also have "\<dots> < 2 ^ 64" using e62 f(2) by (intro power_strict_increasing) simp_all
        finally show ?thesis .
      qed
      then show ?thesis using v unfolding u near m p by simp
    qed
  qed
  then show "float_to_ulong oor (ulong_to_float c) = of_nat (nearest_float (unat c))"
    and "nearest_float (unat c) < 2 ^ 64" by (simp_all add: n_def)
qed


lemma nearest_float_pattern: "binary32_of_nat (nearest_float n) = binary32_of_nat n"
proof (cases "n < 2 ^ 24")
  case True
  then show ?thesis by (simp add: nearest_float_def)
next
  case False
  then have n24: "2 ^ 24 \<le> n" by simp
  define e where "e = ilog2 n"
  define s where "s = e - 23"
  define m where "m = round_mantissa n"
  define R where "R = m * 2 ^ s"
  note f = large_fields [OF n24, folded e_def, folded s_def m_def]
  have near: "nearest_float n = R"
    using False by (simp add: nearest_float_def m_def s_def e_def R_def)
  have m23: "2 ^ 23 \<le> m" and m24: "m \<le> 2 ^ 24" using f(3,4,5,6) by simp_all
  have lo: "2 ^ 23 * 2 ^ s \<le> R" unfolding R_def using m23 by (rule mult_le_mono1)
  have "(2::nat) ^ 24 \<le> 2 ^ 23 * 2 ^ s"
    using f(1) power_increasing [of 1 s "2::nat"] by simp
  then have R24: "2 ^ 24 \<le> R" using lo by (rule le_trans)
  have h: "0 < (2::nat) ^ (s - 1)" by simp
  show ?thesis
  proof (cases "m < 2 ^ 24")
    case True
    have "R < 2 ^ 24 * 2 ^ s" unfolding R_def using True by simp
    then have eR: "ilog2 R = e"
      using lo unfolding f(2) by (intro ilog2_unique) (simp_all add: power_add)
    have rm: "round_mantissa R =
        (if 2 ^ (s - 1) < R mod 2 ^ s \<or> (R mod 2 ^ s = 2 ^ (s - 1) \<and> odd (R div 2 ^ s))
         then R div 2 ^ s + 1 else R div 2 ^ s)"
      by (simp add: round_mantissa_def eR s_def Let_def)
    have "R mod 2 ^ s = 0" "R div 2 ^ s = m" by (simp_all add: R_def)
    then have "round_mantissa R = m" unfolding rm using h by simp
    then show ?thesis
      unfolding near large_fields(7) [OF R24] eR f(7) by simp
  next
    case False
    then have m: "m = 2 ^ 24" using m24 by simp
    have R: "R = 2 ^ 23 * 2 ^ (s + 1)" by (simp add: R_def m)
    have eR: "ilog2 R = e + 1"
      unfolding f(2) R by (intro ilog2_unique) (simp_all add: power_add)
    have sR: "e + 1 - 23 = s + 1" using f(2) by simp
    have rm: "round_mantissa R =
        (if 2 ^ (s + 1 - 1) < R mod 2 ^ (s + 1)
            \<or> (R mod 2 ^ (s + 1) = 2 ^ (s + 1 - 1) \<and> odd (R div 2 ^ (s + 1)))
         then R div 2 ^ (s + 1) + 1 else R div 2 ^ (s + 1))"
      unfolding round_mantissa_def eR sR Let_def by (rule refl)
    have "R mod 2 ^ (s + 1) = 0" "R div 2 ^ (s + 1) = 2 ^ 23" by (simp_all add: R)
    then have "round_mantissa R = 2 ^ 23" unfolding rm by simp
    then show ?thesis
      unfolding near large_fields(7) [OF R24] eR f(7) m by simp
  qed
qed

text \<open>
  The same for cells: the smaller of two converted cells is the conversion of the smaller
  cell, a cell below \<open>2 ^ 64 - 2 ^ 39\<close> is converted to a float below
  \<open>2 ^ 64\<close>, which the conversion back to \<open>ulong\<close> and again to \<open>float\<close>
  gives again, and the conversion to \<open>float\<close> and back keeps the order.
\<close>

lemma select_min_converted:
  "select_min (ulong_to_float a) (ulong_to_float b) = ulong_to_float (min a b)"
proof -
  have lt: "float_lt (ulong_to_float a) (ulong_to_float b)
      = (binary32_of_nat (unat a) < binary32_of_nat (unat b))"
    unfolding ulong_to_float_def
    by (rule float_lt_finite) (rule ulong_to_float_finite)+
  show ?thesis
  proof (cases "a \<le> b")
    case True
    then have le: "binary32_of_nat (unat a) \<le> binary32_of_nat (unat b)"
      by (intro rounding_mono) (simp add: word_le_nat_alt)
    show ?thesis
    proof (cases "binary32_of_nat (unat a) = binary32_of_nat (unat b)")
      case eq: True
      then have "ulong_to_float a = ulong_to_float b" by (simp add: ulong_to_float_def)
      then show ?thesis using True by (simp add: select_min_def min_def)
    next
      case False
      then show ?thesis using le True by (simp add: select_min_def lt min_def)
    qed
  next
    case False
    then have "binary32_of_nat (unat b) \<le> binary32_of_nat (unat a)"
      by (intro rounding_mono) (simp add: word_le_nat_alt)
    then show ?thesis using False by (simp add: select_min_def lt min_def)
  qed
qed

lemma round_trip:
  assumes "unat (c :: ulong) < 2 ^ 64 - 2 ^ 39"
  shows "ulong_to_float (float_to_ulong oor (ulong_to_float c)) = ulong_to_float c"
proof -
  note v = nearest_float_value [OF assms]
  have "unat (of_nat (nearest_float (unat c)) :: ulong) = nearest_float (unat c)"
    using v(2) by (simp add: unat_of_nat)
  then show ?thesis
    unfolding v(1) [of oor] by (simp add: ulong_to_float_def nearest_float_pattern)
qed

lemma round_trip_mono:
  assumes "a \<le> b" "unat (b :: ulong) < 2 ^ 64 - 2 ^ 39"
  shows "float_to_ulong oor (ulong_to_float a) \<le> float_to_ulong oor (ulong_to_float b)"
proof -
  have a: "unat a < 2 ^ 64 - 2 ^ 39" using assms by (simp add: word_le_nat_alt)
  note va = nearest_float_value [OF a]
  note vb = nearest_float_value [OF assms(2)]
  have "nearest_float (unat a) \<le> nearest_float (unat b)"
    using assms(1) by (intro rounding_mono) (simp add: word_le_nat_alt)
  then show ?thesis
    unfolding va(1) [of oor] vb(1) [of oor] using va(2) vb(2)
    by (simp add: word_le_nat_alt unat_of_nat)
qed

section \<open>Facts about the scan\<close>

lemma sint_of_nat_small:
  assumes "i < 2 ^ 31"
  shows "sint (of_nat i :: cint) = int i"
proof -
  have "int i < 2 ^ 31" using assms by (simp flip: of_nat_less_iff)
  then show ?thesis
    by (simp add: signed_of_nat signed_take_bit_int_eq_self)
qed

lemma less_length_iff:
  assumes "i < 2 ^ 31"
  shows "(of_nat i <s (length' :: cint)) = (i < nat (sint length'))"
  using assms by (simp add: word_sless_alt sint_of_nat_small) linarith

text \<open>
  The scan when the index cannot overflow: it visits the stride and folds the
  conversion of each cell it reads.
\<close>

lemma scan_loop_stride:
  assumes "nat (sint length') + W \<le> 2 ^ 31" and "nat (sint length') \<le> length buffer"
    and "i < nat (sint length') + W" and "0 < W"
  shows "scan_loop buffer length' W (of_nat i) acc vis =
     Some (Inr (foldl (\<lambda>a j. select_min a (ulong_to_float (buffer ! j))) acc
                  (stride i W (nat (sint length'))),
                vis @ map int (stride i W (nat (sint length')))))"
  using assms(3)
proof (induction "nat (sint length') - i" arbitrary: i acc vis rule: less_induct)
  case less
  define L where "L = nat (sint length')"
  have i: "i < 2 ^ 31" using less.prems assms(1) by simp
  show ?case
  proof (cases "i < L")
    case True
    note W = assms(4)
    have ld: "load Buffer buffer (int i) = Inr (buffer ! i)"
      using True assms(2) by (simp add: load_def L_def)
    have next_i: "(of_nat i :: cint) + of_nat W = of_nat (i + W)" by simp
    have IH: "scan_loop buffer length' W (of_nat (i + W)) a v =
       Some (Inr (foldl (\<lambda>a j. select_min a (ulong_to_float (buffer ! j))) a (stride (i + W) W L),
                  v @ map int (stride (i + W) W L)))" for a v
      unfolding L_def using True W less.prems by (intro less.hyps) (simp_all add: L_def)
    have st: "stride i W L = i # stride (i + W) W L"
      using True W by (subst stride.simps) simp
    show ?thesis
      unfolding L_def [symmetric]
      by (subst scan_loop.simps)
         (simp add: less_length_iff [OF i] True ld next_i IH st sint_of_nat_small [OF i] L_def [symmetric]
            del: of_nat_add)
  next
    case False
    then have "stride i W (nat (sint length')) = []"
      by (subst stride.simps) (simp add: L_def)
    then show ?thesis
      using False by (subst scan_loop.simps) (simp add: less_length_iff [OF i] L_def)
  qed
qed


lemma set_stride:
  assumes "0 < W"
  shows "set (stride i W L) = {j. i \<le> j \<and> j < L \<and> W dvd (j - i)}"
  using assms
proof (induction i W L rule: stride.induct)
  case (1 i W L)
  show ?case
  proof (cases "i < L")
    case True
    then have st: "stride i W L = i # stride (i + W) W L"
      using "1.prems" by (subst stride.simps) simp
    have IH: "set (stride (i + W) W L) = {j. i + W \<le> j \<and> j < L \<and> W dvd (j - (i + W))}"
      using True "1.prems" by (intro "1.IH") simp_all
    have "{j. i \<le> j \<and> j < L \<and> W dvd (j - i)}
        = insert i {j. i + W \<le> j \<and> j < L \<and> W dvd (j - (i + W))}" (is "?A = insert i ?B")
    proof (rule set_eqI)
      fix j
      show "j \<in> ?A \<longleftrightarrow> j \<in> insert i ?B"
      proof (cases "j = i")
        case True
        then show ?thesis using \<open>i < L\<close> by simp
      next
        case False
        have "W dvd (j - i) \<longleftrightarrow> i + W \<le> j \<and> W dvd (j - (i + W))" if "i \<le> j"
        proof
          assume d: "W dvd (j - i)"
          have "0 < j - i" using False that by simp
          then have "W \<le> j - i" using d by (simp add: dvd_imp_le)
          moreover have "W dvd (j - (i + W))"
            using dvd_diff_nat [OF d dvd_refl] by (simp add: diff_diff_eq)
          ultimately show "i + W \<le> j \<and> W dvd (j - (i + W))" using that by simp
        next
          assume a: "i + W \<le> j \<and> W dvd (j - (i + W))"
          then have d2: "W dvd (j - (i + W))" by (rule conjunct2)
          have "W dvd (j - (i + W)) + W" using d2 dvd_refl by (rule dvd_add)
          moreover have "j - (i + W) + W = j - i" using a by linarith
          ultimately show "W dvd (j - i)" by (simp only:)
        qed
        then show ?thesis using False by auto
      qed
    qed
    then show ?thesis by (simp add: st IH)
  next
    case False
    then have "stride i W L = []" by (subst stride.simps) simp
    then show ?thesis using False by auto
  qed
qed

lemma sorted_stride: "sorted_wrt (<) (stride i W L)"
proof (induction i W L rule: stride.induct)
  case (1 i W L)
  show ?case
  proof (cases "i < L \<and> 0 < W")
    case True
    then have st: "stride i W L = i # stride (i + W) W L"
      by (subst stride.simps) simp
    have "\<forall>j \<in> set (stride (i + W) W L). i < j"
      using True by (auto simp: set_stride)
    then show ?thesis using True "1.IH" by (simp add: st)
  next
    case False
    then have "stride i W L = []" by (subst stride.simps) simp
    then show ?thesis by simp
  qed
qed

lemma mod_eq_iff_dvd_diff:
  fixes g W j :: nat
  assumes "g < W"
  shows "j mod W = g \<longleftrightarrow> g \<le> j \<and> W dvd (j - g)"
proof
  assume m: "j mod W = g"
  have "j = W * (j div W) + j mod W" by simp
  then have "j - g = W * (j div W)" using m by simp
  moreover have "g \<le> j" using m mod_less_eq_dividend [of j W] by simp
  ultimately show "g \<le> j \<and> W dvd (j - g)" by simp
next
  assume a: "g \<le> j \<and> W dvd (j - g)"
  then obtain k where "j - g = W * k" by (auto simp: dvd_def)
  then have "j = W * k + g" using a by simp
  then show "j mod W = g" using assms by simp
qed

lemma stride_filter:
  assumes "g < W"
  shows "stride g W L = filter (\<lambda>i. i mod W = g) [0..<L]"
proof (rule sorted_distinct_set_unique)
  show "sorted (stride g W L)" "distinct (stride g W L)"
    using sorted_stride [of g W L] by (simp_all add: strict_sorted_iff)
  show "sorted (filter (\<lambda>i. i mod W = g) [0..<L])" by (simp add: sorted_filter [where f = id, simplified])
  show "distinct (filter (\<lambda>i. i mod W = g) [0..<L])" by simp
  have "0 < W" using assms by simp
  then show "set (stride g W L) = set (filter (\<lambda>i. i mod W = g) [0..<L])"
    by (auto simp: set_stride mod_eq_iff_dvd_diff [OF assms])
qed

lemma scan_stride:
  assumes "0 < W" and "g < W"
    and "nat (sint length') + W \<le> 2 ^ 31" and "nat (sint length') \<le> length buffer"
  shows "scan buffer length' W g =
     Some (Inr (foldl (\<lambda>a j. select_min a (ulong_to_float (buffer ! j))) INFINITY
                  (stride g W (nat (sint length'))),
                map int (stride g W (nat (sint length')))))"
  unfolding scan_def using assms by (subst scan_loop_stride) simp_all

text \<open>
  C3, as amended. When the index cannot overflow (\<open>length + W \<le> 2 ^ 31\<close>) and the
  buffer holds \<open>length\<close> cells, the work-item \<open>g < W\<close> visits exactly the indices
  below \<open>length\<close> that are congruent to \<open>g\<close> modulo \<open>W\<close>, in increasing order,
  and every index below \<open>length\<close> is visited by exactly one work-item.
\<close>

theorem scan_partitions_indices:
  assumes "0 < W" and "nat (sint length') + W \<le> 2 ^ 31" and "nat (sint length') \<le> length buffer"
  shows "(\<forall>g<W. \<exists>acc. scan buffer length' W g
            = Some (Inr (acc, map int (filter (\<lambda>i. i mod W = g) [0..<nat (sint length')]))))
       \<and> (\<forall>i<nat (sint length'). \<exists>!g. g < W \<and>
            (\<exists>acc vis. scan buffer length' W g = Some (Inr (acc, vis)) \<and> int i \<in> set vis))"
proof (intro conjI allI impI)
  fix g assume "g < W"
  then show "\<exists>acc. scan buffer length' W g
      = Some (Inr (acc, map int (filter (\<lambda>i. i mod W = g) [0..<nat (sint length')])))"
    using assms by (simp add: scan_stride stride_filter)
next
  fix i assume i: "i < nat (sint length')"
  have v: "(\<exists>acc vis. scan buffer length' W g = Some (Inr (acc, vis)) \<and> int i \<in> set vis)
      \<longleftrightarrow> i mod W = g" if "g < W" for g
    using that assms i by (auto simp: scan_stride stride_filter)
  show "\<exists>!g. g < W \<and>
      (\<exists>acc vis. scan buffer length' W g = Some (Inr (acc, vis)) \<and> int i \<in> set vis)"
  proof (rule ex1I [of _ "i mod W"])
    show "i mod W < W \<and>
      (\<exists>acc vis. scan buffer length' W (i mod W) = Some (Inr (acc, vis)) \<and> int i \<in> set vis)"
      using v [of "i mod W"] assms(1) by simp
  next
    fix g
    assume "g < W \<and>
      (\<exists>acc vis. scan buffer length' W g = Some (Inr (acc, vis)) \<and> int i \<in> set vis)"
    then show "g = i mod W" using v [of g] by blast
  qed
qed

theorem scan_partitions_indices_witness:
  "(0::nat) < 4 \<and> nat (sint (6 :: cint)) + 4 \<le> 2 ^ 31
     \<and> nat (sint (6 :: cint)) \<le> length [5, 3, 8, 1, 9, 2 :: ulong]
     \<and> (\<exists>acc. scan [5, 3, 8, 1, 9, 2] 6 4 1 = Some (Inr (acc, [1, 5])))"
proof -
  have "\<exists>acc. scan [5, 3, 8, 1, 9, 2] 6 4 1
      = Some (Inr (acc, map int (filter (\<lambda>i. i mod 4 = 1) [0..<nat (sint (6 :: cint))])))"
    using scan_partitions_indices [of 4 6 "[5, 3, 8, 1, 9, 2]"] by simp
  then show ?thesis by (simp add: upt_rec)
qed

text \<open>
  With \<open>2 ^ 30\<close> work-items and \<open>2 ^ 30 + 1\<close> cells the work-item 0 reads the
  cells 0 and \<open>2 ^ 30\<close>; its next index \<open>2 ^ 31\<close> wraps to \<open>- 2 ^ 31\<close>, which
  is below \<open>length\<close>, and the read of line 12 is outside the buffer.
\<close>

theorem scan_overflow_counterexample:
  "scan (replicate (2 ^ 30 + 1) 0) (2 ^ 30 + 1) (2 ^ 30) 0
     = Some (Inl (OutOfBounds Buffer (- (2 ^ 31))))"
  by (simp add: scan_def scan_loop.simps load_def word_sless_alt float_eval)


section \<open>A length that is not positive\<close>

lemma scan_nothing:
  assumes "sint length' \<le> 0" and "g < 2 ^ 31"
  shows "scan buffer length' W g = Some (Inr (INFINITY, []))"
  unfolding scan_def using assms
  by (subst scan_loop.simps) (simp add: word_sless_alt sint_of_nat_small)

lemma scan_workers_cong:
  assumes "\<And>lid. lid \<in> set lids \<Longrightarrow>
     scan buffer1 length1 gsize (grp * lsize + lid) = scan buffer2 length2 gsize (grp * lsize + lid)"
  shows "scan_workers oor buffer1 length1 gsize lsize grp lids scratch
       = scan_workers oor buffer2 length2 gsize lsize grp lids scratch"
  using assms
proof (induction lids arbitrary: scratch)
  case Nil
  show ?case by simp
next
  case (Cons lid lids)
  have h: "scan buffer1 length1 gsize (grp * lsize + lid) = scan buffer2 length2 gsize (grp * lsize + lid)"
    using Cons.prems by simp
  have t: "scan_workers oor buffer1 length1 gsize lsize grp lids s
      = scan_workers oor buffer2 length2 gsize lsize grp lids s" for s
    using Cons.prems by (intro Cons.IH) simp
  show ?case by (simp add: h t split: option.splits sum.splits)
qed

lemma group_member_bound:
  fixes grp gsize lsize lid :: nat
  assumes "grp < gsize div lsize" and "lid < lsize"
  shows "grp * lsize + lid < gsize"
proof -
  have "grp * lsize + lid < grp * lsize + lsize" using assms(2) by simp
  also have "\<dots> = Suc grp * lsize" by simp
  also have "\<dots> \<le> (gsize div lsize) * lsize" using assms(1) by (intro mult_le_mono1) simp
  also have "\<dots> \<le> gsize" by simp
  finally show ?thesis .
qed

lemma run_groups_cong:
  assumes "\<And>grp out. grp \<in> set grps \<Longrightarrow>
     run_group oor gsize lsize buffer1 mask1 scratch length1 out grp
       = run_group oor gsize lsize buffer2 mask2 scratch length2 out grp"
  shows "run_groups oor gsize lsize buffer1 mask1 scratch length1 grps output
       = run_groups oor gsize lsize buffer2 mask2 scratch length2 grps output"
  using assms
proof (induction grps arbitrary: "output")
  case Nil
  show ?case by simp
next
  case (Cons grp grps)
  have h: "run_group oor gsize lsize buffer1 mask1 scratch length1 out grp
      = run_group oor gsize lsize buffer2 mask2 scratch length2 out grp" for out
    using Cons.prems by simp
  have t: "run_groups oor gsize lsize buffer1 mask1 scratch length1 grps out
      = run_groups oor gsize lsize buffer2 mask2 scratch length2 grps out" for out
    using Cons.prems by (intro Cons.IH) simp
  show ?case by (simp add: h t split: option.splits sum.splits)
qed

text \<open>
  C10, as amended. When \<open>length \<le> 0\<close> and every global id fits an \<open>int\<close>
  (at most \<open>2 ^ 31\<close> work-items), no work-item enters the loop: none reads the
  buffer, each accumulator stays at \<open>INFINITY\<close>, and the kernel writes what it writes
  for an empty buffer of length 0.
\<close>

theorem nonpositive_length_is_empty:
  assumes "sint length' \<le> 0" and "gsize \<le> 2 ^ 31"
  shows "(\<forall>g<gsize. scan buffer length' gsize g = Some (Inr (INFINITY, [])))
       \<and> pir oor gsize lsize buffer mask1 scratch length' output
           = pir oor gsize lsize [] mask1 scratch 0 output"
proof
  show s: "\<forall>g<gsize. scan buffer length' gsize g = Some (Inr (INFINITY, []))"
    using assms by (simp add: scan_nothing)
  have e: "scan [] 0 gsize g = Some (Inr (INFINITY, []))" if "g < gsize" for g
    using that assms(2) by (simp add: scan_nothing)
  have "run_group oor gsize lsize buffer mask1 scratch length' out grp
      = run_group oor gsize lsize [] mask1 scratch 0 out grp" if "grp < gsize div lsize" for out grp
    unfolding run_group_def
    using that s e by (subst scan_workers_cong [of _ buffer length' _ _ _ "[]" 0]) (simp_all add: group_member_bound)
  then show "pir oor gsize lsize buffer mask1 scratch length' output
      = pir oor gsize lsize [] mask1 scratch 0 output"
    unfolding pir_def by (intro run_groups_cong) simp
qed

theorem nonpositive_length_is_empty_witness:
  "sint (- 3 :: cint) \<le> 0 \<and> (4::nat) \<le> 2 ^ 31
     \<and> scan [5, 3] (- 3) 4 1 = Some (Inr (INFINITY, []))
     \<and> pir oor_sat 4 2 [5, 3] [] [0, 0] (- 3) [7, 7] = pir oor_sat 4 2 [] [] [0, 0] 0 [7, 7]"
  using nonpositive_length_is_empty [of "- 3" 4 "[5, 3]" oor_sat 2 "[]" "[0, 0]" "[7, 7]"]
  by simp

text \<open>
  The global id \<open>2 ^ 31\<close> is \<open>- 2 ^ 31\<close> as an \<open>int\<close>: below a length of 0, so
  the work-item enters the loop and reads outside the buffer.
\<close>

theorem large_global_id_counterexample:
  "scan [] 0 (2 ^ 31 + 1) (2 ^ 31) = Some (Inl (OutOfBounds Buffer (- (2 ^ 31))))"
  by (simp add: scan_def scan_loop.simps load_def word_sless_alt)

section \<open>The kernel's rounds and the simultaneous update\<close>

lemma length_tree_round [simp]: "length (tree_round oor off s) = length s"
  by (simp add: tree_round_def)

lemma length_tree_loop [simp]: "length (tree_loop oor off s) = length s"
proof (induction off arbitrary: s rule: less_induct)
  case (less off)
  show ?case
  proof (cases "off = 0")
    case True
    then show ?thesis by (simp add: tree_loop.simps)
  next
    case False
    then have "off div 2 < off" by simp
    then show ?thesis using False by (subst tree_loop.simps) (simp add: less.IH)
  qed
qed

text \<open>
  The work-items in \<open>D\<close> have run their round; the others have not. A work-item reads
  its own cell, which only it writes, and a cell from \<open>off\<close> on, which nobody writes.
\<close>

lemma reduce_step_simulates:
  fixes oor :: "cfloat \<Rightarrow> ulong" and s :: "ulong list"
  assumes k: "k < 2 ^ 31" "k \<notin> D" and off: "off \<le> 2 ^ 30" and len: "2 * off \<le> length s"
  defines "upd \<equiv> \<lambda>D. map (\<lambda>j. if j \<in> D \<and> j < off
               then float_to_ulong oor
                      (select_min (ulong_to_float (s ! j)) (ulong_to_float (s ! (j + off))))
               else s ! j) [0..<length s]"
  shows "reduce_step oor (of_nat off) (upd D) k = Inr (upd (insert k D))"
proof (cases "k < off")
  case True
  have o: "off < 2 ^ 31" using off by simp
  have ko: "k + off < 2 ^ 31" using True off by simp
  have lt: "(of_nat k :: cint) <s of_nat off"
    using True by (simp add: word_sless_alt sint_of_nat_small [OF k(1)] sint_of_nat_small [OF o])
  have sum: "sint ((of_nat k :: cint) + of_nat off) = int (k + off)"
    using sint_of_nat_small [OF ko] by simp
  have l1: "load Scratch (upd D) (int (k + off)) = Inr (s ! (k + off))"
    using True len by (simp add: load_def upd_def del: of_nat_add)
  have l2: "load Scratch (upd D) (int k) = Inr (s ! k)"
    using True len k(2) by (simp add: load_def upd_def)
  have st: "store Scratch (upd D) (int k) v = Inr ((upd D)[k := v])" for v
    using True len by (simp add: store_def upd_def)
  have "(upd D)[k := float_to_ulong oor
          (select_min (ulong_to_float (s ! k)) (ulong_to_float (s ! (k + off))))] = upd (insert k D)"
    using True len by (intro nth_equalityI) (auto simp: upd_def nth_list_update)
  then show ?thesis
    unfolding reduce_step_def Let_def
    by (simp only: lt if_True sum l1 l2 sint_of_nat_small [OF k(1)] st sum.case)
next
  case False
  have o: "off < 2 ^ 31" using off by simp
  have lt: "\<not> (of_nat k :: cint) <s of_nat off"
    using False by (simp add: word_sless_alt sint_of_nat_small [OF k(1)] sint_of_nat_small [OF o])
  have "upd (insert k D) = upd D" using False by (auto simp: upd_def)
  then show ?thesis
    unfolding reduce_step_def Let_def by (simp only: lt if_False)
qed

text \<open>
  A round gives the simultaneous update in whatever order the work-items of the group
  run between the two barriers.
\<close>

lemma round_any_order:
  assumes N: "N \<le> 2 ^ 31" and off: "off \<le> 2 ^ 30" "off \<le> N" and len: "2 * off \<le> length s"
    and order: "distinct lids" "set lids = {0..<N}"
  shows "for_workers (reduce_step oor (of_nat off)) lids s = Inr (tree_round oor off s)"
proof -
  define upd where "upd = (\<lambda>D. map (\<lambda>j. if j \<in> D \<and> j < off
               then float_to_ulong oor
                      (select_min (ulong_to_float (s ! j)) (ulong_to_float (s ! (j + off))))
               else s ! j) [0..<length s])"
  have step: "reduce_step oor (of_nat off) (upd D) k = Inr (upd (insert k D))"
    if "k < N" "k \<notin> D" for k D
    unfolding upd_def using that N by (intro reduce_step_simulates off len) simp_all
  have run: "for_workers (reduce_step oor (of_nat off)) ks (upd D) = Inr (upd (D \<union> set ks))"
    if "distinct ks" "set ks \<subseteq> {0..<N}" "set ks \<inter> D = {}" for ks D
    using that
  proof (induction ks arbitrary: D)
    case Nil
    show ?case by simp
  next
    case (Cons k ks)
    have k: "k < N" "k \<notin> D" using Cons.prems by auto
    have "for_workers (reduce_step oor (of_nat off)) ks (upd (insert k D))
        = Inr (upd (insert k D \<union> set ks))"
      using Cons.prems by (intro Cons.IH) auto
    then show ?case by (simp add: step [OF k])
  qed
  have "upd {} = s" by (simp add: upd_def map_nth)
  moreover have "upd ({} \<union> set lids) = tree_round oor off s"
    using off(2) order(2) by (auto simp: upd_def tree_round_def)
  ultimately show ?thesis using run [of lids "{}"] order by simp
qed

lemma round_simulates:
  assumes N: "N \<le> 2 ^ 31" and off: "off \<le> 2 ^ 30" "off \<le> N" and len: "2 * off \<le> length s"
  shows "for_workers (reduce_step oor (of_nat off)) [0..<N] s = Inr (tree_round oor off s)"
  using assms by (intro round_any_order) simp_all

lemma next_offset:
  assumes "0 < off" "off < 2 ^ 31"
  shows "(word_of_int (sint (of_nat off :: cint) sdiv 2) :: cint) = of_nat (off div 2)"
proof -
  have "int off sdiv 2 = int (off div 2)"
    using assms(1) by (simp add: signed_divide_int_def sgn_if zdiv_int)
  then show ?thesis by (simp add: sint_of_nat_small [OF assms(2)])
qed

text \<open>The number of rounds from the offset \<open>off\<close> on.\<close>

lemma reduce_loop_simulates:
  assumes N: "N \<le> 2 ^ 31" and off: "2 * off \<le> N" and len: "N \<le> length s"
  shows "reduce_loop oor N (of_nat off) s r =
     Inr (tree_loop oor off s, r + (if off = 0 then 0 else Suc (ilog2 off)))"
  using off len
proof (induction off arbitrary: s r rule: less_induct)
  case (less off)
  have o30: "off \<le> 2 ^ 30" using less.prems N by simp
  then have o: "off < 2 ^ 31" by simp
  show ?case
  proof (cases "off = 0")
    case True
    then show ?thesis by (simp add: tree_loop.simps reduce_loop.simps word_sless_alt)
  next
    case False
    then have pos: "(0 :: cint) <s of_nat off"
      by (simp add: word_sless_alt sint_of_nat_small [OF o])
    have rnd: "for_workers (reduce_step oor (of_nat off)) [0..<N] s = Inr (tree_round oor off s)"
      using less.prems N o30 by (intro round_simulates) simp_all
    have nxt: "(word_of_int (sint (of_nat off :: cint) sdiv 2) :: cint) = of_nat (off div 2)"
      using False o by (intro next_offset) simp_all
    have IH: "reduce_loop oor N (of_nat (off div 2)) (tree_round oor off s) (Suc r) =
       Inr (tree_loop oor (off div 2) (tree_round oor off s),
            Suc r + (if off div 2 = 0 then 0 else Suc (ilog2 (off div 2))))"
      using False less.prems by (intro less.IH) simp_all
    have cnt: "Suc r + (if off div 2 = 0 then 0 else Suc (ilog2 (off div 2))) = r + Suc (ilog2 off)"
    proof (cases "off div 2 = 0")
      case True
      then have "off = 1" using False by (simp add: div_eq_0_iff) 
      then show ?thesis by (simp add: ilog2.simps)
    next
      case nz: False
      then have "\<not> off < 2" by (simp add: div_eq_0_iff)
      then have "ilog2 off = Suc (ilog2 (off div 2))" by (subst ilog2.simps) simp
      then show ?thesis using nz by simp
    qed
    have tl: "tree_loop oor off s = tree_loop oor (off div 2) (tree_round oor off s)"
      using False by (subst tree_loop.simps) simp
    have "reduce_loop oor N (of_nat off) s r
        = reduce_loop oor N (of_nat (off div 2)) (tree_round oor off s) (Suc r)"
      by (subst reduce_loop.simps) (simp add: pos rnd nxt)
    also note IH
    finally show ?thesis using False by (simp only: cnt tl if_False)
  qed
qed

lemma rounds_of_group:
  assumes "0 < N"
  shows "(if N div 2 = 0 then 0 else Suc (ilog2 (N div 2))) = ilog2 N"
proof (cases "N div 2 = 0")
  case True
  then have "N = 1" using assms by (simp add: div_eq_0_iff)
  then show ?thesis by (simp add: ilog2.simps)
next
  case False
  then have "\<not> N < 2" by (simp add: div_eq_0_iff)
  then have "ilog2 N = Suc (ilog2 (N div 2))" by (subst ilog2.simps) simp
  then show ?thesis using False by simp
qed

section \<open>The number of rounds\<close>

lemma ceillog2_between:
  assumes "2 ^ r \<le> N" "N < 2 ^ Suc r"
  shows "r = ceillog2 N \<longleftrightarrow> N = 2 ^ r"
proof
  assume "N = 2 ^ r"
  then show "r = ceillog2 N" by simp
next
  assume c: "r = ceillog2 N"
  have "N \<le> 2 ^ ceillog2 N" by (rule le_two_power_ceillog2)
  then show "N = 2 ^ r" using assms(1) c by simp
qed

text \<open>
  C7, as amended. For a group of \<open>N\<close> work-items, \<open>1 \<le> N \<le> 2 ^ 31\<close>, on a
  scratch array of at least \<open>N\<close> cells, the loop ends after exactly \<open>r\<close> rounds
  where \<open>2 ^ r \<le> N < 2 ^ (r + 1)\<close>: the logarithm of \<open>N\<close> rounded down. That is
  the logarithm rounded up exactly when \<open>N\<close> is a power of two.
\<close>

theorem reduction_rounds:
  assumes "0 < N" and "N \<le> 2 ^ 31" and "N \<le> length scratch"
  shows "\<exists>s r. reduce_loop oor N (of_nat (N div 2)) scratch 0 = Inr (s, r)
           \<and> 2 ^ r \<le> N \<and> N < 2 ^ Suc r \<and> (r = ceillog2 N \<longleftrightarrow> N = 2 ^ r)"
proof -
  have "reduce_loop oor N (of_nat (N div 2)) scratch 0
      = Inr (tree_loop oor (N div 2) scratch, 0 + (if N div 2 = 0 then 0 else Suc (ilog2 (N div 2))))"
    using assms by (intro reduce_loop_simulates) simp_all
  then have "reduce_loop oor N (of_nat (N div 2)) scratch 0
      = Inr (tree_loop oor (N div 2) scratch, ilog2 N)"
    by (simp only: rounds_of_group [OF assms(1)] add_0)
  moreover have b: "2 ^ ilog2 N \<le> N" "N < 2 ^ Suc (ilog2 N)"
    using ilog2_bounds [OF assms(1)] by simp_all
  moreover have "ilog2 N = ceillog2 N \<longleftrightarrow> N = 2 ^ ilog2 N"
    using b by (rule ceillog2_between)
  ultimately show ?thesis by blast
qed

theorem reduction_rounds_witness:
  "(0::nat) < 4 \<and> (4::nat) \<le> 2 ^ 31 \<and> 4 \<le> length [5, 3, 8, 1 :: ulong]
     \<and> (\<exists>s r. reduce_loop oor_sat 4 (of_nat (4 div 2)) [5, 3, 8, 1] 0 = Inr (s, r)
           \<and> 2 ^ r \<le> (4::nat) \<and> (4::nat) < 2 ^ Suc r \<and> (r = ceillog2 4 \<longleftrightarrow> (4::nat) = 2 ^ r))"
  using reduction_rounds [of 4 "[5, 3, 8, 1]" oor_sat] by simp

text \<open>
  Three work-items: the offset starts at \<open>3 / 2 = 1\<close> and is 0 after one round,
  while the logarithm of 3 rounded up is 2.
\<close>

theorem three_workers_one_round_counterexample:
  "reduce_loop oor_sat 3 (of_nat (3 div 2)) [5, 3, 1] 0 = Inr ([3, 3, 1], 1) \<and> ceillog2 3 = 2"
proof
  show "reduce_loop oor_sat 3 (of_nat (3 div 2)) [5, 3, 1] 0 = Inr ([3, 3, 1], 1)"
    by (simp add: reduce_loop.simps reduce_step_def load_def store_def word_sless_alt upt_rec
          signed_divide_int_def conversions_5_3_1)
  show "ceillog2 3 = 2"
    by (rule ceillog2_eqI) simp_all
qed

section \<open>A whole group and the whole kernel\<close>

lemma foldl_update_upt:
  assumes "N \<le> length s"
  shows "foldl (\<lambda>s i. s[i := f i]) s [0..<N] = map f [0..<N] @ drop N s"
  using assms
proof (induction N)
  case 0
  show ?case by simp
next
  case (Suc N)
  then have N: "N < length s" by simp
  have "foldl (\<lambda>s i. s[i := f i]) s [0..<Suc N] = (map f [0..<N] @ drop N s)[N := f N]"
    using Suc by simp
  also have "\<dots> = map f [0..<N] @ (drop N s)[0 := f N]"
    by (simp add: list_update_append)
  also have "drop N s = s ! N # drop (Suc N) s"
    using N by (simp add: Cons_nth_drop_Suc)
  finally show ?case by simp
qed

lemma scan_workers_store:
  assumes "\<And>lid. lid \<in> set lids \<Longrightarrow>
       scan buffer length' gsize (grp * lsize + lid) = Some (Inr (acc lid, vis lid))"
    and "\<And>lid. lid \<in> set lids \<Longrightarrow> lid < length scratch \<and> lid < 2 ^ 31"
  shows "scan_workers oor buffer length' gsize lsize grp lids scratch =
     Some (Inr (foldl (\<lambda>s lid. s[lid := float_to_ulong oor (acc lid)]) scratch lids))"
  using assms
proof (induction lids arbitrary: scratch)
  case Nil
  show ?case by simp
next
  case (Cons lid lids)
  have sc: "scan buffer length' gsize (grp * lsize + lid) = Some (Inr (acc lid, vis lid))"
    using Cons.prems(1) by simp
  have b: "lid < length scratch" "lid < 2 ^ 31" using Cons.prems(2) by simp_all
  have st: "store Scratch scratch (sint (of_nat lid :: cint)) v = Inr (scratch[lid := v])" for v
    using b by (simp add: store_def sint_of_nat_small)
  have IH: "scan_workers oor buffer length' gsize lsize grp lids (scratch[lid := v]) =
     Some (Inr (foldl (\<lambda>s lid. s[lid := float_to_ulong oor (acc lid)]) (scratch[lid := v]) lids))" for v
    using Cons.prems by (intro Cons.IH) simp_all
  show ?case by (simp add: sc st IH)
qed

lemma publish_idle:
  assumes "\<And>lid. lid \<in> set lids \<Longrightarrow> 0 < lid \<and> lid < 2 ^ 32"
  shows "for_workers (publish s grp) lids out = Inr out"
  using assms
proof (induction lids)
  case Nil
  show ?case by simp
next
  case (Cons lid lids)
  have "0 < lid" "lid < 2 ^ 32" using Cons.prems by simp_all
  then have "(of_nat lid :: cint) \<noteq> 0"
    by (simp add: word_of_nat_eq_0_iff dvd_def) (metis nat_dvd_not_less dvd_triv_left)
  then have "publish s grp out lid = Inr out" by (simp add: publish_def)
  then show ?case using Cons by simp
qed

lemma publish_group:
  assumes "0 < N" and "N \<le> 2 ^ 32" and "0 < length s" and "grp < length out"
  shows "for_workers (publish s grp) [0..<N] out = Inr (out[grp := s ! 0])"
proof -
  have u: "[0..<N] = 0 # [1..<N]" using assms(1) by (simp add: upt_conv_Cons)
  have "publish s grp out 0 = Inr (out[grp := s ! 0])"
    using assms by (simp add: publish_def load_def store_def)
  moreover have "for_workers (publish s grp) [1..<N] out' = Inr out'" for out'
    using assms(2) by (intro publish_idle) auto
  ultimately show ?thesis by (simp add: u)
qed

lemma run_group_result:
  assumes N: "0 < N" "N \<le> 2 ^ 31" and len: "N \<le> length scratch" and grp: "grp < length output"
    and scans: "\<And>lid. lid < N \<Longrightarrow> \<exists>vis. scan buffer length' W (grp * N + lid)
          = Some (Inr (stride_accumulator buffer W L (grp * N + lid), vis))"
  shows "run_group oor W N buffer mask1 scratch length' output grp =
     Some (Inr (tree_loop oor (N div 2) (stored_accumulators oor buffer W N L scratch grp),
                output[grp := tree_loop oor (N div 2) (stored_accumulators oor buffer W N L scratch grp) ! 0],
                ilog2 N))"
proof -
  define s1 where "s1 = stored_accumulators oor buffer W N L scratch grp"
  have l1: "length s1 = length scratch" using len by (simp add: s1_def stored_accumulators_def)
  obtain vis where vis: "\<And>lid. lid < N \<Longrightarrow> scan buffer length' W (grp * N + lid)
          = Some (Inr (stride_accumulator buffer W L (grp * N + lid), vis lid))"
    using scans by metis
  have "scan_workers oor buffer length' W N grp [0..<N] scratch =
     Some (Inr (foldl (\<lambda>s lid. s[lid := float_to_ulong oor (stride_accumulator buffer W L (grp * N + lid))])
        scratch [0..<N]))"
    using N len by (intro scan_workers_store [where vis = vis]) (auto simp: vis)
  then have p1: "scan_workers oor buffer length' W N grp [0..<N] scratch = Some (Inr s1)"
    using len by (simp add: foldl_update_upt s1_def stored_accumulators_def)
  have "reduce_loop oor N (of_nat (N div 2)) s1 0 =
     Inr (tree_loop oor (N div 2) s1, 0 + (if N div 2 = 0 then 0 else Suc (ilog2 (N div 2))))"
    using N len l1 by (intro reduce_loop_simulates) simp_all
  then have p2: "reduce_loop oor N (of_nat (N div 2)) s1 0 = Inr (tree_loop oor (N div 2) s1, ilog2 N)"
    by (simp only: rounds_of_group [OF N(1)] add_0)
  have p3: "for_workers (publish (tree_loop oor (N div 2) s1) grp) [0..<N] output
      = Inr (output[grp := tree_loop oor (N div 2) s1 ! 0])"
    using N len l1 grp by (intro publish_group) auto
  show ?thesis
    unfolding run_group_def reduce_group_def s1_def [symmetric]
    by (simp add: p1 p2 p3)
qed

lemma run_groups_result:
  assumes "\<And>grp out. grp \<in> set grps \<Longrightarrow> length out = length output \<Longrightarrow>
       \<exists>s r. run_group oor gsize lsize buffer mask1 scratch length' out grp
          = Some (Inr (s, out[grp := v grp], r))"
  shows "run_groups oor gsize lsize buffer mask1 scratch length' grps output =
     Some (Inr (foldl (\<lambda>out grp. out[grp := v grp]) output grps))"
  using assms
proof (induction grps arbitrary: "output")
  case Nil
  show ?case by simp
next
  case (Cons grp grps)
  obtain s r where g: "run_group oor gsize lsize buffer mask1 scratch length' output grp
      = Some (Inr (s, output[grp := v grp], r))"
    using Cons.prems [of grp "output"] by auto
  have "run_groups oor gsize lsize buffer mask1 scratch length' grps (output[grp := v grp]) =
     Some (Inr (foldl (\<lambda>out grp. out[grp := v grp]) (output[grp := v grp]) grps))"
    using Cons.prems by (intro Cons.IH) simp_all
  then show ?case by (simp add: g)
qed

text \<open>
  The kernel when no index overflows and the arrays are large enough: every group
  publishes the cell 0 of its reduced scratch array.
\<close>

lemma pir_result:
  assumes N: "0 < N" and ov: "nat (sint length') + W \<le> 2 ^ 31"
    and buf: "nat (sint length') \<le> length buffer" and scr: "N \<le> length scratch"
    and out: "W div N \<le> length output"
  shows "pir oor W N buffer mask1 scratch length' output =
     Some (Inr (map (\<lambda>grp. tree_loop oor (N div 2)
                       (stored_accumulators oor buffer W N (nat (sint length')) scratch grp) ! 0)
                  [0..<W div N]
                @ drop (W div N) output))"
proof -
  define L where "L = nat (sint length')"
  define v where "v = (\<lambda>grp. tree_loop oor (N div 2) (stored_accumulators oor buffer W N L scratch grp) ! 0)"
  have grp_ok: "\<exists>s r. run_group oor W N buffer mask1 scratch length' out' grp
      = Some (Inr (s, out'[grp := v grp], r))"
    if "grp < W div N" "length out' = length output" for grp out'
  proof -
    have "\<not> W < N" using that(1) by (auto simp: div_eq_0_iff)
    then have W: "0 < W" "N \<le> W" using N by simp_all
    then have N31: "N \<le> 2 ^ 31" using ov by simp
    have scans: "\<exists>vis. scan buffer length' W (grp * N + lid)
          = Some (Inr (stride_accumulator buffer W L (grp * N + lid), vis))" if "lid < N" for lid
    proof -
      have "grp * N + lid < W" using \<open>grp < W div N\<close> that by (rule group_member_bound)
      then show ?thesis
        using W ov buf by (simp add: scan_stride stride_accumulator_def L_def)
    qed
    show ?thesis
      using N N31 scr that out scans unfolding v_def
      by (subst run_group_result [where L = L]) simp_all
  qed
  have "run_groups oor W N buffer mask1 scratch length' [0..<W div N] output =
     Some (Inr (foldl (\<lambda>out grp. out[grp := v grp]) output [0..<W div N]))"
    using grp_ok by (intro run_groups_result) simp_all
  then show ?thesis
    using out unfolding pir_def by (simp add: foldl_update_upt v_def L_def)
qed

section \<open>Memory safety\<close>

text \<open>
  C8, as amended. Let the launch have at least one group (\<open>0 < N \<le> W\<close>) and no index
  overflow (\<open>length + W \<le> 2 ^ 31\<close>, a negative length counting as 0), the buffer hold
  \<open>length\<close> cells, the scratch array \<open>N\<close> cells and the output one cell per group.
  Then every scan returns without a fault and has read only indices in \<open>[0, length)\<close>;
  the reduction loop returns without a fault even on a scratch array of exactly \<open>N\<close>
  cells; and the whole kernel returns its output without a fault.
\<close>

theorem accesses_in_bounds:
  assumes N: "0 < N" "N \<le> W" and ov: "nat (sint length') + W \<le> 2 ^ 31"
    and buf: "nat (sint length') \<le> length buffer" and scr: "N \<le> length scratch"
    and out: "W div N \<le> length output"
  shows "(\<forall>g<W. \<exists>acc vis. scan buffer length' W g = Some (Inr (acc, vis))
            \<and> (\<forall>i\<in>set vis. 0 \<le> i \<and> i < sint length'))
       \<and> (\<exists>s r. reduce_loop oor N (of_nat (N div 2)) (take N scratch) 0 = Inr (s, r))
       \<and> (\<exists>out'. pir oor W N buffer mask1 scratch length' output = Some (Inr out')
            \<and> length out' = length output)"
proof (intro conjI allI impI)
  fix g assume g: "g < W"
  then have W: "0 < W" by simp
  have "scan buffer length' W g = Some (Inr (stride_accumulator buffer W (nat (sint length')) g,
      map int (stride g W (nat (sint length')))))"
    using W g ov buf by (simp add: scan_stride stride_accumulator_def)
  moreover have "\<forall>i\<in>set (map int (stride g W (nat (sint length')))). 0 \<le> i \<and> i < sint length'"
    using W by (auto simp: set_stride)
  ultimately show "\<exists>acc vis. scan buffer length' W g = Some (Inr (acc, vis))
      \<and> (\<forall>i\<in>set vis. 0 \<le> i \<and> i < sint length')"
    by blast
next
  have "N \<le> 2 ^ 31" using N ov by simp
  then have "reduce_loop oor N (of_nat (N div 2)) (take N scratch) 0
      = Inr (tree_loop oor (N div 2) (take N scratch),
             0 + (if N div 2 = 0 then 0 else Suc (ilog2 (N div 2))))"
    using scr by (intro reduce_loop_simulates) simp_all
  then show "\<exists>s r. reduce_loop oor N (of_nat (N div 2)) (take N scratch) 0 = Inr (s, r)"
    by blast
next
  show "\<exists>out'. pir oor W N buffer mask1 scratch length' output = Some (Inr out')
      \<and> length out' = length output"
    using N(1) ov buf scr out by (simp add: pir_result)
qed

theorem accesses_in_bounds_witness:
  "(0::nat) < 2 \<and> (2::nat) \<le> 4 \<and> nat (sint (6 :: cint)) + 4 \<le> 2 ^ 31
     \<and> nat (sint (6 :: cint)) \<le> length [5, 3, 8, 1, 9, 2 :: ulong]
     \<and> 2 \<le> length [0, 0 :: ulong] \<and> 4 div 2 \<le> length [0, 0 :: ulong]
     \<and> (\<exists>out'. pir oor_sat 4 2 [5, 3, 8, 1, 9, 2] [] [0, 0] 6 [0, 0] = Some (Inr out')
            \<and> length out' = length [0, 0 :: ulong])"
  using accesses_in_bounds [of 2 4 6 "[5, 3, 8, 1, 9, 2]" "[0, 0]" "[0, 0]" oor_sat "[]"]
  by simp

text \<open>
  A launch of \<open>2 ^ 30\<close> work-items in groups of 1024 on \<open>2 ^ 30 + 1\<close> cells: the
  work-item 0 reads the cells 0 and \<open>2 ^ 30\<close>, its index wraps to \<open>- 2 ^ 31\<close>, the
  loop condition holds, and line 12 reads \<open>buffer[- 2 ^ 31]\<close>.
\<close>

theorem index_wraps_counterexample:
  "pir oor_sat (2 ^ 30) 1024 (replicate (2 ^ 30 + 1) 0) [] (replicate 1024 0) (2 ^ 30 + 1)
       (replicate (2 ^ 20) 0)
     = Some (Inl (OutOfBounds Buffer (- (2 ^ 31))))"
proof -
  have g: "[0..<2 ^ 30 div 1024] = 0 # [1..<2 ^ 30 div 1024]"
    by (subst upt_conv_Cons) simp_all
  have w: "[0..<1024] = 0 # [1..<1024]"
    by (subst upt_conv_Cons) simp_all
  have s: "scan (replicate (2 ^ 30 + 1) 0) (2 ^ 30 + 1) (2 ^ 30) (0 * 1024 + 0)
      = Some (Inl (OutOfBounds Buffer (- (2 ^ 31))))"
    by (simp add: scan_def scan_loop.simps load_def word_sless_alt float_eval)
  show ?thesis
    unfolding pir_def g run_groups.simps run_group_def w scan_workers.simps s
    by simp
qed

section \<open>The conversion of a cell\<close>

lemma conversion_is_not_reinterpretation:
  assumes "w \<noteq> 0" and "unat w < 2 ^ 24"
  shows "ulong_to_float w \<noteq> reinterpret_float w"
proof
  assume e: "ulong_to_float w = reinterpret_float w"
  have n: "0 < unat w" using assms(1) by (simp add: unat_gt_0)
  have "binary32_of_nat (unat w) < 255 * 2 ^ 23" using assms(2) by (rule binary32_small_bound)
  then have u: "unat (ulong_to_float w) = binary32_of_nat (unat w)"
    by (simp add: ulong_to_float_def finite_fields)
  have "127 * 2 ^ 23 \<le> binary32_of_nat (unat w)"
    using binary32_small [OF n assms(2)] by simp
  moreover have "unat (reinterpret_float w) = unat w"
    using assms(2) by (simp add: reinterpret_float_def unsigned_ucast_eq take_bit_nat_eq_self)
  ultimately show False using e u assms(2) by simp
qed

text \<open>
  C4, as amended. The value folded for a visited cell is the conversion of the cell's
  value to \<open>float\<close>, not a reinterpretation of its bits: the accumulator of a scan is
  the fold of \<open>select_min\<close> over \<open>ulong_to_float\<close> of the visited cells; a cell
  below \<open>2 ^ 24\<close> converts to the float of the same value (converting back gives the
  cell); and for such a cell other than 0 the converted float differs from the float
  whose pattern is the low 32 bits of the cell.
\<close>

theorem scan_converts_numerically:
  assumes "0 < W" and "g < W"
    and "nat (sint length') + W \<le> 2 ^ 31" and "nat (sint length') \<le> length buffer"
  shows "scan buffer length' W g =
       Some (Inr (foldl (\<lambda>a j. select_min a (ulong_to_float (buffer ! j))) INFINITY
                    (filter (\<lambda>i. i mod W = g) [0..<nat (sint length')]),
                  map int (filter (\<lambda>i. i mod W = g) [0..<nat (sint length')])))
     \<and> (\<forall>w. unat w < 2 ^ 24 \<longrightarrow> float_to_ulong oor (ulong_to_float w) = w)
     \<and> (\<forall>w. w \<noteq> 0 \<and> unat w < 2 ^ 24 \<longrightarrow> ulong_to_float w \<noteq> reinterpret_float w)"
  using assms
  by (simp add: scan_stride stride_filter float_to_ulong_small conversion_is_not_reinterpretation)

theorem scan_converts_numerically_witness:
  "(0::nat) < 1 \<and> (0::nat) < 1 \<and> nat (sint (1 :: cint)) + 1 \<le> 2 ^ 31
     \<and> nat (sint (1 :: cint)) \<le> length [3 :: ulong]
     \<and> scan [3] 1 1 0 = Some (Inr (select_min INFINITY (ulong_to_float 3), [0]))
     \<and> float_to_ulong oor_sat (ulong_to_float 3) = 3"
  using scan_converts_numerically [of 1 0 1 "[3]" oor_sat]
  by simp

text \<open>
  A buffer holding the cell 1: the accumulator is \<open>1.0f\<close> (pattern \<open>0x3F800000\<close>).
  Reinterpreting the cell would have folded the pattern \<open>0x00000001\<close>, the smallest
  denormal.
\<close>

theorem converted_not_reinterpreted_counterexample:
  "scan [1] 1 1 0 = Some (Inr (0x3F800000, [0]))
     \<and> select_min INFINITY (reinterpret_float 1) = 0x00000001"
  by (simp add: scan_def scan_loop.simps load_def word_sless_alt float_eval reinterpret_float_def)

section \<open>An empty input\<close>

lemma select_min_same [simp]: "select_min x x = x"
  by (simp add: select_min_def)

text \<open>A scratch array whose cells below \<open>2 * off\<close> are all the same.\<close>

lemma tree_loop_const:
  assumes "0 < length s" and "2 * off \<le> length s" and "\<And>j. j < max 1 (2 * off) \<Longrightarrow> s ! j = c"
  shows "tree_loop oor off s ! 0 =
     ((\<lambda>c. float_to_ulong oor (ulong_to_float c)) ^^ (if off = 0 then 0 else Suc (ilog2 off))) c"
  using assms
proof (induction off arbitrary: s c rule: less_induct)
  case (less off)
  show ?case
  proof (cases "off = 0")
    case True
    then show ?thesis using less.prems by (simp add: tree_loop.simps)
  next
    case False
    define s' where "s' = tree_round oor off s"
    have s': "s' ! j = float_to_ulong oor (ulong_to_float c)" if "j < max 1 (2 * (off div 2))" for j
    proof -
      have "j < off" using that False by auto
      then show ?thesis using less.prems by (simp add: s'_def tree_round_def)
    qed
    have "tree_loop oor (off div 2) s' ! 0 =
       ((\<lambda>c. float_to_ulong oor (ulong_to_float c))
          ^^ (if off div 2 = 0 then 0 else Suc (ilog2 (off div 2)))) (float_to_ulong oor (ulong_to_float c))"
      using False less.prems(1,2) s' by (intro less.IH) (simp_all add: s'_def)
    also have "\<dots> = ((\<lambda>c. float_to_ulong oor (ulong_to_float c))
          ^^ Suc (if off div 2 = 0 then 0 else Suc (ilog2 (off div 2)))) c"
      by (simp only: funpow_Suc_right o_apply)
    also have "Suc (if off div 2 = 0 then 0 else Suc (ilog2 (off div 2))) = Suc (ilog2 off)"
      using rounds_of_group [of off] False by simp
    finally show ?thesis
      using False by (subst tree_loop.simps) (simp add: s'_def)
  qed
qed

lemma stride_accumulator_empty [simp]: "stride_accumulator buffer W 0 g = INFINITY"
  by (simp add: stride_accumulator_def stride.simps)

text \<open>
  C5, as amended. For \<open>length = 0\<close> and a launch of at most \<open>2 ^ 31\<close> work-items in
  groups of \<open>N\<close> (scratch and output large enough), no work-item reads the buffer and
  every accumulator stays at \<open>INFINITY\<close>. The output cell of every group receives the
  \<open>ulong\<close> that the conversion of \<open>INFINITY\<close> gives on the device, converted to
  \<open>float\<close> and back once per round of the reduction; no \<open>ulong\<close> converts to
  \<open>INFINITY\<close>, so the cell does not hold positive infinity.
\<close>

theorem empty_input_publishes_converted_infinity:
  assumes "0 < N" and "N \<le> W" and "W \<le> 2 ^ 31" and "N \<le> length scratch"
    and "W div N \<le> length output"
  shows "(\<forall>g<W. scan buffer 0 W g = Some (Inr (INFINITY, [])))
       \<and> (\<exists>out'. pir oor W N buffer mask1 scratch 0 output = Some (Inr out')
            \<and> (\<forall>grp<W div N.
                  out' ! grp = ((\<lambda>c. float_to_ulong oor (ulong_to_float c)) ^^ ilog2 N)
                                 (float_to_ulong oor INFINITY)
                  \<and> ulong_to_float (out' ! grp) \<noteq> INFINITY))"
proof
  show "\<forall>g<W. scan buffer 0 W g = Some (Inr (INFINITY, []))"
    using assms(3) by (simp add: scan_nothing)
next
  define c where "c = float_to_ulong oor INFINITY"
  define s1 where "s1 = (\<lambda>grp. stored_accumulators oor buffer W N 0 scratch grp)"
  have p: "pir oor W N buffer mask1 scratch 0 output =
     Some (Inr (map (\<lambda>grp. tree_loop oor (N div 2) (s1 grp) ! 0) [0..<W div N] @ drop (W div N) output))"
    using assms by (simp add: pir_result s1_def)
  have v: "tree_loop oor (N div 2) (s1 grp) ! 0 = ((\<lambda>c. float_to_ulong oor (ulong_to_float c)) ^^ ilog2 N) c"
    for grp
  proof -
    have "tree_loop oor (N div 2) (s1 grp) ! 0 = ((\<lambda>c. float_to_ulong oor (ulong_to_float c))
        ^^ (if N div 2 = 0 then 0 else Suc (ilog2 (N div 2)))) c"
    proof (rule tree_loop_const)
      show "0 < length (s1 grp)" using assms(1) by (simp add: s1_def stored_accumulators_def)
      show "2 * (N div 2) \<le> length (s1 grp)" by (simp add: s1_def stored_accumulators_def)
      fix j assume "j < max 1 (2 * (N div 2))"
      then have "j < N" using assms(1) by auto
      then show "s1 grp ! j = c"
        by (simp add: s1_def stored_accumulators_def nth_append c_def)
    qed
    then show ?thesis by (simp only: rounds_of_group [OF assms(1)])
  qed
  show "\<exists>out'. pir oor W N buffer mask1 scratch 0 output = Some (Inr out')
      \<and> (\<forall>grp<W div N. out' ! grp = ((\<lambda>c. float_to_ulong oor (ulong_to_float c)) ^^ ilog2 N)
                                        (float_to_ulong oor INFINITY)
            \<and> ulong_to_float (out' ! grp) \<noteq> INFINITY)"
    unfolding p c_def [symmetric]
    by (simp add: nth_append v ulong_to_float_not_INFINITY)
qed

theorem empty_input_publishes_converted_infinity_witness:
  "(0::nat) < 2 \<and> (2::nat) \<le> 4 \<and> (4::nat) \<le> 2 ^ 31 \<and> 2 \<le> length [0, 0 :: ulong]
     \<and> 4 div 2 \<le> length [7, 7 :: ulong]
     \<and> scan [] 0 4 3 = Some (Inr (INFINITY, []))
     \<and> (\<exists>out'. pir oor_sat 4 2 [] [] [0, 0] 0 [7, 7] = Some (Inr out')
          \<and> out' ! 1 = ((\<lambda>c. float_to_ulong oor_sat (ulong_to_float c)) ^^ ilog2 2)
                         (float_to_ulong oor_sat INFINITY))"
proof -
  have "(\<forall>g<4. scan [] 0 4 g = Some (Inr (INFINITY, [])))
       \<and> (\<exists>out'. pir oor_sat 4 2 [] [] [0, 0] 0 [7, 7] = Some (Inr out')
            \<and> (\<forall>grp<4 div 2.
                  out' ! grp = ((\<lambda>c. float_to_ulong oor_sat (ulong_to_float c)) ^^ ilog2 2)
                                 (float_to_ulong oor_sat INFINITY)
                  \<and> ulong_to_float (out' ! grp) \<noteq> INFINITY))"
    by (rule empty_input_publishes_converted_infinity) simp_all
  then show ?thesis by auto
qed

text \<open>
  One work-item, no input, on a device that saturates: the output cell is the largest
  \<open>ulong\<close>. It is not positive infinity, neither as the value the kernel would read
  from it nor as a bit pattern.
\<close>

theorem empty_input_counterexample:
  "pir oor_sat 1 1 [] [] [0] 0 [0] = Some (Inr [0xFFFFFFFFFFFFFFFF])
     \<and> ulong_to_float 0xFFFFFFFFFFFFFFFF \<noteq> INFINITY
     \<and> reinterpret_float 0xFFFFFFFFFFFFFFFF \<noteq> INFINITY"
  by (simp add: kernel_eval float_eval oor_sat_def reinterpret_float_def upt_rec)

section \<open>The least of converted cells\<close>

lemma select_min_INFINITY_left [simp]: "select_min INFINITY x = x"
  by (simp add: select_min_def float_lt_INFINITY_left)

lemma select_min_INFINITY_right [simp]: "select_min (ulong_to_float w) INFINITY = ulong_to_float w"
  by (simp add: select_min_def ulong_to_float_below_INFINITY)

lemma fold_select_min:
  "foldl (\<lambda>a j. select_min a (ulong_to_float (buffer ! j))) (ulong_to_float m) js
     = ulong_to_float (Min (insert m ((!) buffer ` set js)))"
proof (induction js arbitrary: m)
  case Nil
  show ?case by simp
next
  case (Cons j js)
  have "foldl (\<lambda>a j. select_min a (ulong_to_float (buffer ! j))) (ulong_to_float m) (j # js)
      = foldl (\<lambda>a j. select_min a (ulong_to_float (buffer ! j))) (ulong_to_float (min m (buffer ! j))) js"
    by (simp add: select_min_converted)
  also have "\<dots> = ulong_to_float (Min (insert (min m (buffer ! j)) ((!) buffer ` set js)))"
    by (rule Cons.IH)
  also have "Min (insert (min m (buffer ! j)) ((!) buffer ` set js))
      = Min (insert m ((!) buffer ` set (j # js)))"
  proof (cases "set js = {}")
    case True
    then show ?thesis by (simp add: min.commute)
  next
    case False
    then show ?thesis by (simp add: min.assoc min.commute min.left_commute)
  qed
  finally show ?case .
qed

text \<open>The accumulator of a work-item that visits at least one cell.\<close>

lemma stride_accumulator_min:
  assumes "stride g W L \<noteq> []"
  shows "stride_accumulator buffer W L g = ulong_to_float (Min ((!) buffer ` set (stride g W L)))"
proof -
  obtain j js where st: "stride g W L = j # js" using assms by (cases "stride g W L") auto
  have "stride_accumulator buffer W L g
      = foldl (\<lambda>a j. select_min a (ulong_to_float (buffer ! j))) (ulong_to_float (buffer ! j)) js"
    by (simp add: stride_accumulator_def st)
  also have "\<dots> = ulong_to_float (Min (insert (buffer ! j) ((!) buffer ` set js)))"
    by (rule fold_select_min)
  finally show ?thesis by (simp add: st)
qed

lemma Min_mono_on:
  fixes f :: "ulong \<Rightarrow> ulong"
  assumes "finite A" "A \<noteq> {}" and "\<And>a b. a \<in> A \<Longrightarrow> b \<in> A \<Longrightarrow> a \<le> b \<Longrightarrow> f a \<le> f b"
  shows "Min (f ` A) = f (Min A)"
proof (rule Min_eqI)
  show "finite (f ` A)" using assms(1) by simp
  have m: "Min A \<in> A" using assms(1,2) by (rule Min_in)
  then show "f (Min A) \<in> f ` A" by (rule imageI)
  show "f (Min A) \<le> y" if y: "y \<in> f ` A" for y
  proof -
    obtain a where a: "a \<in> A" "y = f a" using y by auto
    have "Min A \<le> a" using assms(1) a(1) by simp
    then show ?thesis unfolding a(2) using m a(1) by (intro assms(3))
  qed
qed

section \<open>The cells the tree folds\<close>

lemma tree_cells_1 [simp]: "tree_cells (Suc 0) = [0]" and tree_cells_0 [simp]: "tree_cells 0 = [0]"
  by (simp_all add: tree_cells.simps)

lemma tree_cells_split:
  assumes "2 \<le> N"
  shows "tree_cells N = tree_cells (N div 2) @ map (\<lambda>i. i + N div 2) (tree_cells (N div 2))"
  using assms by (subst tree_cells.simps) simp

lemma tree_cells_bound: "i \<in> set (tree_cells N) \<Longrightarrow> i < max 1 N"
proof (induction N arbitrary: i rule: less_induct)
  case (less N)
  show ?case
  proof (cases "N < 2")
    case True
    then show ?thesis using less.prems by (simp add: tree_cells.simps)
  next
    case False
    then have h: "N div 2 < N" "0 < N div 2" by simp_all
    have "i \<in> set (tree_cells (N div 2)) \<or> (\<exists>j\<in>set (tree_cells (N div 2)). i = j + N div 2)"
      using less.prems False by (auto simp: tree_cells_split)
    moreover have "j < N div 2" if "j \<in> set (tree_cells (N div 2))" for j
      using less.IH [OF h(1) that] h(2) by simp
    ultimately have "i < N div 2 \<or> (\<exists>j. j < N div 2 \<and> i = j + N div 2)" by auto
    then have "i < N" by (elim disjE exE conjE) linarith+
    then show ?thesis by simp
  qed
qed

lemma tree_cells_zero: "0 \<in> set (tree_cells N)"
proof (induction N rule: less_induct)
  case (less N)
  show ?case
  proof (cases "N < 2")
    case True
    then show ?thesis by (simp add: tree_cells.simps)
  next
    case False
    then have "N div 2 < N" by simp
    then have "0 \<in> set (tree_cells (N div 2))" by (rule less.IH)
    then show ?thesis using False by (simp add: tree_cells_split)
  qed
qed

lemma tree_cells_nonempty [simp]: "tree_cells N \<noteq> []"
  using tree_cells_zero [of N] by auto

lemma tree_cells_power: "set (tree_cells (2 ^ k)) = {0..<2 ^ k}"
proof (induction k)
  case 0
  show ?case by simp
next
  case (Suc k)
  have two: "2 \<le> (2::nat) ^ Suc k" by simp
  have half: "(2::nat) ^ Suc k div 2 = 2 ^ k" by simp
  have "set (tree_cells (2 ^ Suc k)) = {0..<2 ^ k} \<union> (\<lambda>i. i + 2 ^ k) ` {0..<2 ^ k}"
    unfolding tree_cells_split [OF two] half by (simp only: set_append set_map Suc)
  also have "(\<lambda>i. i + 2 ^ k) ` {0..<2 ^ k} = {2 ^ k..<(2::nat) ^ Suc k}"
  proof (rule set_eqI)
    fix x :: nat
    show "x \<in> (\<lambda>i. i + 2 ^ k) ` {0..<2 ^ k} \<longleftrightarrow> x \<in> {2 ^ k..<2 ^ Suc k}"
    proof
      assume "x \<in> (\<lambda>i. i + 2 ^ k) ` {0..<2 ^ k}"
      then obtain i where "i \<in> {0..<(2::nat) ^ k}" "x = i + 2 ^ k" by blast
      then show "x \<in> {2 ^ k..<2 ^ Suc k}" by simp
    next
      assume x: "x \<in> {2 ^ k..<2 ^ Suc k}"
      then have a: "2 ^ k \<le> x" "x < 2 * 2 ^ k" by simp_all
      have "x - 2 ^ k < 2 ^ k" using a by linarith
      then have "x = (x - 2 ^ k) + 2 ^ k" "x - 2 ^ k \<in> {0..<2 ^ k}" using a(1) by simp_all
      then show "x \<in> (\<lambda>i. i + 2 ^ k) ` {0..<2 ^ k}" by (rule image_eqI)
    qed
  qed
  also have "{0..<2 ^ k} \<union> {2 ^ k..<(2::nat) ^ Suc k} = {0..<2 ^ Suc k}"
    by (rule ivl_disj_un_two) simp_all
  finally show ?case .
qed

lemma Min_image_min:
  fixes f g :: "nat \<Rightarrow> ulong"
  assumes "finite C" "C \<noteq> {}"
  shows "Min ((\<lambda>i. min (f i) (g i)) ` C) = min (Min (f ` C)) (Min (g ` C))"
  using assms
proof (induction C rule: finite_ne_induct)
  case (singleton x)
  show ?case by simp
next
  case (insert x F)
  then show ?case by (simp add: min.assoc min.left_commute)
qed


text \<open>
  When every cell the loop folds survives the conversion to \<open>float\<close> and back, the
  loop leaves in cell 0 the least of them.
\<close>

lemma tree_loop_min:
  assumes "0 < N" and "N \<le> length s"
    and "\<And>i. i \<in> set (tree_cells N) \<Longrightarrow> float_to_ulong oor (ulong_to_float (s ! i)) = s ! i"
  shows "tree_loop oor (N div 2) s ! 0 = Min ((!) s ` set (tree_cells N))"
  using assms
proof (induction N arbitrary: s rule: less_induct)
  case (less N)
  show ?case
  proof (cases "N < 2")
    case True
    then have "N = 1" using less.prems(1) by simp
    then show ?thesis by (simp add: tree_loop.simps)
  next
    case False
    define h where "h = N div 2"
    define C where "C = set (tree_cells h)"
    define s' where "s' = tree_round oor h s"
    have h: "0 < h" "h < N" "2 * h \<le> N" using False by (simp_all add: h_def)
    have cells: "set (tree_cells N) = C \<union> (\<lambda>i. i + h) ` C"
      using False by (simp add: tree_cells_split C_def h_def)
    have Cb: "i < h" if "i \<in> C" for i
      using tree_cells_bound [of i h] that h(1) by (simp add: C_def)
    have fin: "finite C" "C \<noteq> {}" by (simp_all add: C_def)
    have s'_nth: "s' ! i = min (s ! i) (s ! (i + h))" if "i \<in> C" for i
    proof -
      have a: "float_to_ulong oor (ulong_to_float (s ! i)) = s ! i"
        using less.prems(3) cells that by simp
      have b: "float_to_ulong oor (ulong_to_float (s ! (i + h))) = s ! (i + h)"
        using less.prems(3) [of "i + h"] cells that by simp
      have "i < length s" using Cb [OF that] h less.prems(2) by simp
      then have "s' ! i = float_to_ulong oor
          (select_min (ulong_to_float (s ! i)) (ulong_to_float (s ! (i + h))))"
        using Cb [OF that] by (simp add: s'_def tree_round_def)
      also have "\<dots> = float_to_ulong oor (ulong_to_float (min (s ! i) (s ! (i + h))))"
        by (simp only: select_min_converted)
      also have "\<dots> = min (s ! i) (s ! (i + h))"
        using a b by (simp add: min_def)
      finally show ?thesis .
    qed
    have keep': "float_to_ulong oor (ulong_to_float (s' ! i)) = s' ! i" if "i \<in> set (tree_cells h)" for i
    proof -
      have i: "i \<in> C" using that by (simp add: C_def)
      have a: "float_to_ulong oor (ulong_to_float (s ! i)) = s ! i"
        using less.prems(3) cells i by simp
      have b: "float_to_ulong oor (ulong_to_float (s ! (i + h))) = s ! (i + h)"
        using less.prems(3) [of "i + h"] cells i by simp
      show ?thesis using a b by (simp add: s'_nth [OF i] min_def)
    qed
    have "tree_loop oor (N div 2) s = tree_loop oor (h div 2) s'"
      using h(1) by (subst tree_loop.simps) (simp add: h_def s'_def)
    also have "\<dots> ! 0 = Min ((!) s' ` C)"
      unfolding C_def using h less.prems(2) keep'
      by (intro less.IH) (simp_all add: s'_def)
    also have "(!) s' ` C = (\<lambda>i. min (s ! i) (s ! (i + h))) ` C"
      using s'_nth by (intro image_cong) simp_all
    also have "Min \<dots> = min (Min ((!) s ` C)) (Min ((\<lambda>i. s ! (i + h)) ` C))"
      using fin by (rule Min_image_min)
    also have "\<dots> = Min ((!) s ` C \<union> (\<lambda>i. s ! (i + h)) ` C)"
      using fin by (simp add: Min_Un)
    also have "(!) s ` C \<union> (\<lambda>i. s ! (i + h)) ` C = (!) s ` set (tree_cells N)"
      by (simp add: cells image_Un image_image)
    finally show ?thesis .
  qed
qed


section \<open>Groups of any size\<close>

text \<open>
  The least of a list of accumulators: those at the indices in \<open>C\<close> are conversions of
  cells, the others are \<open>INFINITY\<close>, the identity of the fold.
\<close>

lemma fold_select_min_indexed:
  fixes w :: "nat \<Rightarrow> ulong"
  assumes "\<And>i. i < length accs \<Longrightarrow> accs ! i = (if i \<in> C then ulong_to_float (w i) else INFINITY)"
  shows "foldl select_min INFINITY accs =
     (if C \<inter> {0..<length accs} = {} then INFINITY
      else ulong_to_float (Min (w ` (C \<inter> {0..<length accs}))))"
  using assms
proof (induction accs rule: rev_induct)
  case Nil
  show ?case by simp
next
  case (snoc x xs)
  define n where "n = length xs"
  define D where "D = C \<inter> {0..<n}"
  have fin: "finite D" by (simp add: D_def)
  have "xs ! i = (if i \<in> C then ulong_to_float (w i) else INFINITY)" if "i < length xs" for i
    using snoc.prems [of i] that by (simp add: nth_append)
  then have IH: "foldl select_min INFINITY xs = (if D = {} then INFINITY else ulong_to_float (Min (w ` D)))"
    unfolding D_def n_def by (rule snoc.IH)
  have x: "x = (if n \<in> C then ulong_to_float (w n) else INFINITY)"
    using snoc.prems [of n] by (simp add: n_def)
  have D': "C \<inter> {0..<length (xs @ [x])} = (if n \<in> C then insert n D else D)"
    by (auto simp: D_def n_def less_Suc_eq)
  have step: "foldl select_min INFINITY (xs @ [x]) = select_min (foldl select_min INFINITY xs) x"
    by simp
  show ?case
  proof (cases "n \<in> C")
    case True
    show ?thesis
    proof (cases "D = {}")
      case empty: True
      show ?thesis unfolding step IH D' using True empty x by simp
    next
      case False
      have "Min (w ` insert n D) = min (Min (w ` D)) (w n)"
        using fin False by (simp add: min.commute)
      then show ?thesis
        unfolding step IH D' using True False x by (simp add: select_min_converted)
    qed
  next
    case False
    show ?thesis unfolding step IH D' using False x by simp
  qed
qed

text \<open>
  C6, as amended. Let a group have any size \<open>N\<close>, \<open>1 \<le> N \<le> 2 ^ 31\<close>, a power
  of two or not. If the accumulator of every work-item whose cell the halving never
  folds into cell 0 is \<open>INFINITY\<close> (the work-item visited nothing), and the
  accumulator of every other work-item is in the range of \<open>ulong\<close> (the conversion
  of a cell below \<open>2 ^ 64 - 2 ^ 39\<close>: a work-item that visited a cell leaves the
  scan with the conversion of a cell), then after the loop \<open>scratch[0]\<close> is the
  least of the \<open>N\<close> accumulators, converted to \<open>ulong\<close>. The cells from \<open>N\<close>
  on (\<open>pad\<close>) are never read: what they are seeded with has no effect.
\<close>

theorem reduction_any_group_size:
  assumes "0 < N" and "N \<le> 2 ^ 31" and "length accs = N"
    and folded: "\<forall>i\<in>set (tree_cells N). \<exists>w. unat w < 2 ^ 64 - 2 ^ 39 \<and> accs ! i = ulong_to_float w"
    and unfolded: "\<forall>i<N. i \<notin> set (tree_cells N) \<longrightarrow> accs ! i = INFINITY"
  shows "\<exists>s r. reduce_loop oor N (of_nat (N div 2)) (map (float_to_ulong oor) accs @ pad) 0 = Inr (s, r)
           \<and> s ! 0 = float_to_ulong oor (foldl select_min INFINITY accs)"
proof -
  define s0 where "s0 = map (float_to_ulong oor) accs @ pad"
  define C where "C = set (tree_cells N)"
  define rt where "rt = (\<lambda>c. float_to_ulong oor (ulong_to_float c))"
  obtain w where w: "\<And>i. i \<in> C \<Longrightarrow> unat (w i) < 2 ^ 64 - 2 ^ 39 \<and> accs ! i = ulong_to_float (w i)"
    using folded unfolding C_def by metis
  have CN: "i < N" if "i \<in> C" for i
    using tree_cells_bound [of i N] that assms(1) by (simp add: C_def)
  have CC: "C \<inter> {0..<length accs} = C" using CN assms(3) by auto
  have fin: "finite C" "C \<noteq> {}" by (simp_all add: C_def)
  have s0_nth: "s0 ! i = rt (w i)" if "i \<in> C" for i
    using CN [OF that] w [OF that] assms(3) by (simp add: s0_def nth_append rt_def)
  have keep: "float_to_ulong oor (ulong_to_float (s0 ! i)) = s0 ! i" if "i \<in> set (tree_cells N)" for i
  proof -
    have i: "i \<in> C" using that by (simp add: C_def)
    show ?thesis unfolding s0_nth [OF i] rt_def using w [OF i] by (simp add: round_trip)
  qed
  have "reduce_loop oor N (of_nat (N div 2)) s0 0
      = Inr (tree_loop oor (N div 2) s0, 0 + (if N div 2 = 0 then 0 else Suc (ilog2 (N div 2))))"
    using assms(1-3) by (intro reduce_loop_simulates) (simp_all add: s0_def)
  moreover have "tree_loop oor (N div 2) s0 ! 0 = float_to_ulong oor (foldl select_min INFINITY accs)"
  proof -
    have "tree_loop oor (N div 2) s0 ! 0 = Min ((!) s0 ` C)"
      unfolding C_def using assms(1,3) keep
      by (intro tree_loop_min) (simp_all add: s0_def)
    also have "(!) s0 ` C = rt ` w ` C"
      unfolding image_image using s0_nth by (intro image_cong) simp_all
    also have "Min \<dots> = rt (Min (w ` C))"
    proof (rule Min_mono_on)
      show "finite (w ` C)" "w ` C \<noteq> {}" using fin by simp_all
      show "rt a \<le> rt b" if "a \<in> w ` C" "b \<in> w ` C" "a \<le> b" for a b
        unfolding rt_def using that(3) w that(2) by (intro round_trip_mono) auto
    qed
    finally have l: "tree_loop oor (N div 2) s0 ! 0 = rt (Min (w ` C))" .
    have "accs ! i = (if i \<in> C then ulong_to_float (w i) else INFINITY)" if "i < length accs" for i
      using that w [of i] unfolded assms(3) by (auto simp: C_def)
    then have "foldl select_min INFINITY accs = ulong_to_float (Min (w ` C))"
      using fin by (simp add: fold_select_min_indexed [where C = C and w = w] CC)
    then show ?thesis unfolding l by (simp add: rt_def)
  qed
  ultimately show ?thesis unfolding s0_def by blast
qed

theorem reduction_any_group_size_witness:
  "(0::nat) < 3 \<and> (3::nat) \<le> 2 ^ 31
     \<and> length [ulong_to_float 5, ulong_to_float 3, INFINITY] = 3
     \<and> set (tree_cells 3) = {0, 1}
     \<and> (\<exists>s r. reduce_loop oor_sat 3 (of_nat (3 div 2))
                  (map (float_to_ulong oor_sat) [ulong_to_float 5, ulong_to_float 3, INFINITY] @ []) 0
                = Inr (s, r)
           \<and> s ! 0 = float_to_ulong oor_sat
                        (foldl select_min INFINITY [ulong_to_float 5, ulong_to_float 3, INFINITY]))"
proof -
  have c: "set (tree_cells 3) = {0, 1}"
    by (simp add: tree_cells.simps [of 3] tree_cells.simps [of 1] insert_commute)
  have folded: "\<forall>i\<in>set (tree_cells 3). \<exists>w. unat w < 2 ^ 64 - 2 ^ 39
      \<and> [ulong_to_float 5, ulong_to_float 3, INFINITY] ! i = ulong_to_float w"
  proof
    fix i assume "i \<in> set (tree_cells 3)"
    then have "i = 0 \<or> i = 1" by (simp add: c)
    then show "\<exists>w. unat w < 2 ^ 64 - 2 ^ 39
        \<and> [ulong_to_float 5, ulong_to_float 3, INFINITY] ! i = ulong_to_float w"
    proof
      assume "i = 0"
      then have "unat (5 :: ulong) < 2 ^ 64 - 2 ^ 39
          \<and> [ulong_to_float 5, ulong_to_float 3, INFINITY] ! i = ulong_to_float 5" by simp
      then show ?thesis ..
    next
      assume "i = 1"
      then have "unat (3 :: ulong) < 2 ^ 64 - 2 ^ 39
          \<and> [ulong_to_float 5, ulong_to_float 3, INFINITY] ! i = ulong_to_float 3" by simp
      then show ?thesis ..
    qed
  qed
  have unfolded: "\<forall>i<3. i \<notin> set (tree_cells 3)
      \<longrightarrow> [ulong_to_float 5, ulong_to_float 3, INFINITY] ! i = INFINITY"
  proof (intro allI impI)
    fix i :: nat assume "i < 3" "i \<notin> set (tree_cells 3)"
    then have "i = 2" by (simp add: c)
    then show "[ulong_to_float 5, ulong_to_float 3, INFINITY] ! i = INFINITY" by simp
  qed
  have "\<exists>s r. reduce_loop oor_sat 3 (of_nat (3 div 2))
                  (map (float_to_ulong oor_sat) [ulong_to_float 5, ulong_to_float 3, INFINITY] @ []) 0
                = Inr (s, r)
           \<and> s ! 0 = float_to_ulong oor_sat
                        (foldl select_min INFINITY [ulong_to_float 5, ulong_to_float 3, INFINITY])"
    using folded unfolded by (intro reduction_any_group_size) simp_all
  then show ?thesis using c by simp
qed

text \<open>
  A group of three work-items on the single cell 5, on a device that converts an
  out-of-range float to 0. The work-items 1 and 2 visit nothing and leave the scan with
  \<open>INFINITY\<close>. The halving folds the cells 0 and 1 only, so the cell left unfolded,
  cell 2, belongs to a work-item whose accumulator is the identity. But \<open>scratch\<close>
  is an array of \<open>ulong\<close>: the work-item 1 stores the conversion of \<open>INFINITY\<close>,
  which is 0 on this device, the round folds it into cell 0, and the group publishes
  0, while the least of the three accumulators is 5.
\<close>

theorem identity_in_folded_slot_counterexample:
  "scan [5] 1 3 0 = Some (Inr (ulong_to_float 5, [0]))
   \<and> scan [5] 1 3 1 = Some (Inr (INFINITY, []))
   \<and> scan [5] 1 3 2 = Some (Inr (INFINITY, []))
   \<and> set (tree_cells 3) = {0, 1}
   \<and> run_group oor_zero 3 3 [5] [] [0, 0, 0] 1 [0] 0 = Some (Inr ([0, 0, 0], [0], 1))
   \<and> float_to_ulong oor_zero (foldl select_min INFINITY [ulong_to_float 5, INFINITY, INFINITY]) = 5"
proof (intro conjI)
  show sc0: "scan [5] 1 3 0 = Some (Inr (ulong_to_float 5, [0]))"
    by (simp add: scan_def scan_loop.simps load_def word_sless_alt conversions_5_3_1)
  show sc1: "scan [5] 1 3 1 = Some (Inr (INFINITY, []))"
    by (simp add: scan_def scan_loop.simps load_def word_sless_alt)
  show sc2: "scan [5] 1 3 2 = Some (Inr (INFINITY, []))"
    by (simp add: scan_def scan_loop.simps load_def word_sless_alt)
  show "set (tree_cells 3) = {0, 1}"
    by (simp add: tree_cells.simps [of 3] tree_cells.simps [of 1] insert_commute)
  have sc: "scan [5] 1 3 (Suc 0) = Some (Inr (INFINITY, []))"
    "scan [5] 1 3 (Suc (Suc 0)) = Some (Inr (INFINITY, []))"
    using sc1 sc2 by (simp_all add: numeral_2_eq_2)
  have p1: "scan_workers oor_zero [5] 1 3 3 0 [0..<3] [0, 0, 0] = Some (Inr [5, 0, 0])"
    by (simp add: upt_rec sc0 sc store_def conversions_5_3_1 conversions_edge)
  have p2: "reduce_group oor_zero 3 0 [5, 0, 0] [0] = Inr ([0, 0, 0], [0], 1)"
    by (simp add: reduce_group_def reduce_loop.simps reduce_step_def publish_def load_def store_def
          word_sless_alt upt_rec signed_divide_int_def conversions_5_3_1 conversions_edge)
  show "run_group oor_zero 3 3 [5] [] [0, 0, 0] 1 [0] 0 = Some (Inr ([0, 0, 0], [0], 1))"
    by (simp add: run_group_def p1 p2)
  show "float_to_ulong oor_zero (foldl select_min INFINITY [ulong_to_float 5, INFINITY, INFINITY]) = 5"
    by (simp add: float_to_ulong_small)
qed

text \<open>
  The cells from \<open>N\<close> on play no part. A group of three work-items on the cells 5,
  3, 1, with a scratch array of four cells whose tail cell is seeded with the converted
  infinity: the offset is 1 for one round, which folds the cells 0 and 1 only, and
  \<open>scratch[0]\<close> and the output are 3, while the least accumulator is 1.
\<close>

lemma padded_tail_example:
  "run_group oor_sat 3 3 [5, 3, 1] [] [0, 0, 0, float_to_ulong oor_sat INFINITY] 3 [0] 0
     = Some (Inr ([3, 3, 1, 0xFFFFFFFFFFFFFFFF], [3], 1))
   \<and> float_to_ulong oor_sat
       (foldl select_min INFINITY [ulong_to_float 5, ulong_to_float 3, ulong_to_float 1]) = 1"
proof
  have sc: "scan [5, 3, 1] 3 3 0 = Some (Inr (0x40A00000, [0]))"
    "scan [5, 3, 1] 3 3 (Suc 0) = Some (Inr (0x40400000, [1]))"
    "scan [5, 3, 1] 3 3 (Suc (Suc 0)) = Some (Inr (0x3F800000, [2]))"
    by (simp_all add: scan_def scan_loop.simps load_def word_sless_alt conversions_5_3_1)
  have p1: "scan_workers oor_sat [5, 3, 1] 3 3 3 0 [0..<3] [0, 0, 0, 0xFFFFFFFFFFFFFFFF]
      = Some (Inr [5, 3, 1, 0xFFFFFFFFFFFFFFFF])"
    by (simp add: upt_rec sc store_def conversions_5_3_1)
  have p2: "reduce_group oor_sat 3 0 [5, 3, 1, 0xFFFFFFFFFFFFFFFF] [0]
      = Inr ([3, 3, 1, 0xFFFFFFFFFFFFFFFF], [3], 1)"
    by (simp add: reduce_group_def reduce_loop.simps reduce_step_def publish_def load_def store_def
          word_sless_alt upt_rec signed_divide_int_def conversions_5_3_1)
  show "run_group oor_sat 3 3 [5, 3, 1] [] [0, 0, 0, float_to_ulong oor_sat INFINITY] 3 [0] 0
     = Some (Inr ([3, 3, 1, 0xFFFFFFFFFFFFFFFF], [3], 1))"
    by (simp add: run_group_def conversions_5_3_1 p1 p2)
  show "float_to_ulong oor_sat
       (foldl select_min INFINITY [ulong_to_float 5, ulong_to_float 3, ulong_to_float 1]) = 1"
    by (simp add: conversions_5_3_1)
qed

section \<open>A group whose size is a power of two\<close>

lemma Min_of_Mins:
  fixes f :: "nat \<Rightarrow> ulong set"
  assumes "finite A" "A \<noteq> {}" and "\<And>a. a \<in> A \<Longrightarrow> finite (f a) \<and> f a \<noteq> {}"
  shows "Min ((\<lambda>a. Min (f a)) ` A) = Min (\<Union>a\<in>A. f a)"
proof (rule sym, rule Min_eqI)
  show "finite (\<Union>a\<in>A. f a)" using assms by simp
  show "Min ((\<lambda>a. Min (f a)) ` A) \<le> y" if "y \<in> (\<Union>a\<in>A. f a)" for y
  proof -
    obtain a where a: "a \<in> A" "y \<in> f a" using \<open>y \<in> (\<Union>a\<in>A. f a)\<close> by auto
    have "Min ((\<lambda>a. Min (f a)) ` A) \<le> Min (f a)" using assms(1) a(1) by simp
    also have "\<dots> \<le> y" using assms(3) [OF a(1)] a(2) by simp
    finally show ?thesis .
  qed
  have "Min ((\<lambda>a. Min (f a)) ` A) \<in> (\<lambda>a. Min (f a)) ` A"
    using assms(1,2) by (intro Min_in) simp_all
  then obtain a where a: "a \<in> A" "Min ((\<lambda>a. Min (f a)) ` A) = Min (f a)" by auto
  have "Min (f a) \<in> f a" using assms(3) [OF a(1)] by (intro Min_in) simp_all
  then show "Min ((\<lambda>a. Min (f a)) ` A) \<in> (\<Union>a\<in>A. f a)" using a by auto
qed


text \<open>
  Phase 1 for a work-item that visits a cell below \<open>2 ^ 64 - 2 ^ 39\<close>: its
  accumulator is the conversion of the least cell it visits, which is in the range of
  \<open>ulong\<close>, and that is what it stores.
\<close>

lemma stored_accumulator_cell:
  assumes g: "grp * N + lid < W" and lid: "lid < N"
    and i: "i < L" "i mod W = grp * N + lid" "unat (buffer ! i) < 2 ^ 64 - 2 ^ 39"
  shows "stride_accumulator buffer W L (grp * N + lid)
           = ulong_to_float (Min ((!) buffer ` {i. i < L \<and> i mod W = grp * N + lid}))"
    and "stored_accumulators oor buffer W N L scratch grp ! lid
           = float_to_ulong oor (ulong_to_float (Min ((!) buffer ` {i. i < L \<and> i mod W = grp * N + lid})))"
    and "unat (Min ((!) buffer ` {i. i < L \<and> i mod W = grp * N + lid})) < 2 ^ 64 - 2 ^ 39"
proof -
  define B where "B = {i. i < L \<and> i mod W = grp * N + lid}"
  have st: "set (stride (grp * N + lid) W L) = B"
    using g by (simp add: stride_filter B_def)
  have iB: "i \<in> B" using i by (simp add: B_def)
  then have ne: "stride (grp * N + lid) W L \<noteq> []" using st by auto
  show a: "stride_accumulator buffer W L (grp * N + lid) = ulong_to_float (Min ((!) buffer ` B))"
    using stride_accumulator_min [OF ne] by (simp add: st)
  have "stored_accumulators oor buffer W N L scratch grp ! lid
      = float_to_ulong oor (stride_accumulator buffer W L (grp * N + lid))"
    using lid by (simp add: stored_accumulators_def nth_append)
  then show "stored_accumulators oor buffer W N L scratch grp ! lid
      = float_to_ulong oor (ulong_to_float (Min ((!) buffer ` B)))"
    by (simp add: a)
  have fin: "finite B" by (simp add: B_def)
  have "Min ((!) buffer ` B) \<le> buffer ! i" using fin iB by simp
  then show "unat (Min ((!) buffer ` B)) < 2 ^ 64 - 2 ^ 39"
    using i(3) by (simp add: word_le_nat_alt)
qed

lemma scan_workers_stored:
  assumes N: "N \<le> 2 ^ 31" and len: "N \<le> length scratch"
    and scans: "\<And>lid. lid < N \<Longrightarrow> \<exists>vis. scan buffer length' W (grp * N + lid)
          = Some (Inr (stride_accumulator buffer W L (grp * N + lid), vis))"
  shows "scan_workers oor buffer length' W N grp [0..<N] scratch
       = Some (Inr (stored_accumulators oor buffer W N L scratch grp))"
proof -
  obtain vis where vis: "\<And>lid. lid < N \<Longrightarrow> scan buffer length' W (grp * N + lid)
          = Some (Inr (stride_accumulator buffer W L (grp * N + lid), vis lid))"
    using scans by metis
  have "scan_workers oor buffer length' W N grp [0..<N] scratch =
     Some (Inr (foldl (\<lambda>s lid. s[lid := float_to_ulong oor (stride_accumulator buffer W L (grp * N + lid))])
        scratch [0..<N]))"
    using N len by (intro scan_workers_store [where vis = vis]) (auto simp: vis)
  then show ?thesis
    using len by (simp add: foldl_update_upt stored_accumulators_def)
qed


text \<open>
  C2, as amended. Let the group size be a power of two, the launch have no index
  overflow (\<open>length + W \<le> 2 ^ 31\<close>), and every work-item of the group visit at
  least one cell below \<open>2 ^ 64 - 2 ^ 39\<close>, so that its accumulator is in the range
  of \<open>ulong\<close>. Then after phase 1 \<open>scratch[i]\<close> is the least of exactly the cells
  the work-item \<open>i\<close> of the group visits, converted to \<open>float\<close> and back: the
  nearest float, which is that least cell itself when it is below \<open>2 ^ 24\<close>. The
  cell holds the accumulator without loss: converted to \<open>float\<close> it is the
  accumulator the work-item left the scan with. After the loop \<open>scratch[0]\<close> is the
  least of the group's \<open>N\<close> cells of phase 1, wherever it stood; and
  \<open>output[group]\<close> is that value.
\<close>

theorem group_minimum_power_of_two:
  assumes pow: "N = 2 ^ k" and grp: "grp < W div N"
    and ov: "nat (sint length') + W \<le> 2 ^ 31"
    and buf: "nat (sint length') \<le> length buffer" and scr: "N \<le> length scratch"
    and out: "grp < length output"
    and visits: "\<forall>lid<N. \<exists>i<nat (sint length').
        i mod W = grp * N + lid \<and> unat (buffer ! i) < 2 ^ 64 - 2 ^ 39"
  shows "\<exists>s1 s2 r.
       scan_workers oor buffer length' W N grp [0..<N] scratch = Some (Inr s1)
     \<and> (\<forall>lid<N. s1 ! lid = float_to_ulong oor (ulong_to_float
            (Min ((!) buffer ` {i. i < nat (sint length') \<and> i mod W = grp * N + lid}))))
     \<and> (\<forall>lid<N. unat (Min ((!) buffer ` {i. i < nat (sint length') \<and> i mod W = grp * N + lid})) < 2 ^ 24
            \<longrightarrow> s1 ! lid = Min ((!) buffer ` {i. i < nat (sint length') \<and> i mod W = grp * N + lid}))
     \<and> (\<forall>lid<N. \<exists>vis. scan buffer length' W (grp * N + lid)
            = Some (Inr (ulong_to_float (s1 ! lid), vis)))
     \<and> reduce_loop oor N (of_nat (N div 2)) s1 0 = Inr (s2, r)
     \<and> s2 ! 0 = Min (set (take N s1))
     \<and> run_group oor W N buffer mask1 scratch length' output grp
           = Some (Inr (s2, output[grp := s2 ! 0], r))"
proof -
  define L where "L = nat (sint length')"
  define s1 where "s1 = stored_accumulators oor buffer W N L scratch grp"
  define s2 where "s2 = tree_loop oor (N div 2) s1"
  define m where "m = (\<lambda>lid. Min ((!) buffer ` {i. i < L \<and> i mod W = grp * N + lid}))"
  have N0: "0 < N" using pow by simp
  have "\<not> W < N" using grp by (auto simp: div_eq_0_iff)
  then have W: "0 < W" "N \<le> W" using N0 by simp_all
  then have N31: "N \<le> 2 ^ 31" using ov by simp
  have member: "grp * N + lid < W" if "lid < N" for lid
    using grp that by (rule group_member_bound)
  have scans: "\<exists>vis. scan buffer length' W (grp * N + lid)
        = Some (Inr (stride_accumulator buffer W L (grp * N + lid), vis))" if "lid < N" for lid
    using member [OF that] W ov buf by (simp add: scan_stride stride_accumulator_def L_def)
  have cell: "stride_accumulator buffer W L (grp * N + lid) = ulong_to_float (m lid)
      \<and> s1 ! lid = float_to_ulong oor (ulong_to_float (m lid))
      \<and> unat (m lid) < 2 ^ 64 - 2 ^ 39" if lid: "lid < N" for lid
  proof -
    obtain i where i: "i < L" "i mod W = grp * N + lid" "unat (buffer ! i) < 2 ^ 64 - 2 ^ 39"
      using visits lid unfolding L_def by blast
    show ?thesis
      unfolding m_def s1_def using stored_accumulator_cell [OF member [OF lid] lid i] by blast
  qed
  have l1: "length s1 = length scratch" using scr by (simp add: s1_def stored_accumulators_def)
  have p1: "scan_workers oor buffer length' W N grp [0..<N] scratch = Some (Inr s1)"
    unfolding s1_def using N31 scr scans by (rule scan_workers_stored)
  have c1: "s1 ! lid = float_to_ulong oor (ulong_to_float (m lid))" if "lid < N" for lid
    using cell [OF that] by simp
  have c2: "s1 ! lid = m lid" if "lid < N" "unat (m lid) < 2 ^ 24" for lid
    unfolding c1 [OF that(1)] using that(2) by (rule float_to_ulong_small)
  have lossless: "ulong_to_float (s1 ! lid) = stride_accumulator buffer W L (grp * N + lid)"
    if "lid < N" for lid
    using cell [OF that] by (simp add: round_trip)
  have c3: "\<exists>vis. scan buffer length' W (grp * N + lid)
      = Some (Inr (ulong_to_float (s1 ! lid), vis))" if "lid < N" for lid
    using scans [OF that] by (simp add: lossless [OF that])
  have keep: "float_to_ulong oor (ulong_to_float (s1 ! lid)) = s1 ! lid" if "lid < N" for lid
    using cell [OF that] by (simp add: round_trip)
  have "reduce_loop oor N (of_nat (N div 2)) s1 0
      = Inr (tree_loop oor (N div 2) s1, 0 + (if N div 2 = 0 then 0 else Suc (ilog2 (N div 2))))"
    using N31 scr l1 by (intro reduce_loop_simulates) simp_all
  then have p2: "reduce_loop oor N (of_nat (N div 2)) s1 0 = Inr (s2, ilog2 N)"
    by (simp only: rounds_of_group [OF N0] add_0 s2_def)
  have tc: "set (tree_cells N) = {0..<N}" unfolding pow by (rule tree_cells_power)
  have "s2 ! 0 = Min ((!) s1 ` set (tree_cells N))"
    unfolding s2_def using N0 scr l1 keep by (intro tree_loop_min) (simp_all add: tc)
  then have p3: "s2 ! 0 = Min (set (take N s1))"
    using scr l1 by (simp add: tc nth_image)
  have p4: "run_group oor W N buffer mask1 scratch length' output grp
      = Some (Inr (s2, output[grp := s2 ! 0], ilog2 N))"
    unfolding s2_def s1_def using N0 N31 scr out scans by (rule run_group_result)
  show ?thesis using p1 c1 c2 c3 p2 p3 p4 unfolding L_def m_def by blast
qed

theorem group_minimum_power_of_two_witness:
  "(2::nat) = 2 ^ 1 \<and> (0::nat) < 2 div 2
     \<and> nat (sint (3 :: cint)) + 2 \<le> 2 ^ 31
     \<and> nat (sint (3 :: cint)) \<le> length [9223372036854775808, 16777221, 1099511627776 :: ulong]
     \<and> 2 \<le> length [0, 0 :: ulong] \<and> 0 < length [0 :: ulong]
     \<and> (\<exists>s1 s2 r.
           scan_workers oor_sat [9223372036854775808, 16777221, 1099511627776] 3 2 2 0 [0..<2] [0, 0]
             = Some (Inr s1)
         \<and> reduce_loop oor_sat 2 (of_nat (2 div 2)) s1 0 = Inr (s2, r)
         \<and> s2 ! 0 = Min (set (take 2 s1))
         \<and> run_group oor_sat 2 2 [9223372036854775808, 16777221, 1099511627776] [] [0, 0] 3 [0] 0
             = Some (Inr (s2, [0][0 := s2 ! 0], r)))"
proof -
  let ?b = "[9223372036854775808, 16777221, 1099511627776 :: ulong]"
  have visits: "\<forall>lid<2. \<exists>i<nat (sint (3 :: cint)).
      i mod 2 = 0 * 2 + lid \<and> unat (?b ! i) < 2 ^ 64 - 2 ^ 39"
  proof (intro allI impI)
    fix lid :: nat assume "lid < 2"
    then have "lid = 0 \<or> lid = 1" by auto
    then have "lid < nat (sint (3 :: cint)) \<and> lid mod 2 = 0 * 2 + lid
        \<and> unat (?b ! lid) < 2 ^ 64 - 2 ^ 39"
      by auto
    then show "\<exists>i<nat (sint (3 :: cint)). i mod 2 = 0 * 2 + lid \<and> unat (?b ! i) < 2 ^ 64 - 2 ^ 39"
      by blast
  qed
  have "\<exists>s1 s2 r.
       scan_workers oor_sat ?b 3 2 2 0 [0..<2] [0, 0] = Some (Inr s1)
     \<and> (\<forall>lid<2. s1 ! lid = float_to_ulong oor_sat (ulong_to_float
            (Min ((!) ?b ` {i. i < nat (sint (3 :: cint)) \<and> i mod 2 = 0 * 2 + lid}))))
     \<and> (\<forall>lid<2. unat (Min ((!) ?b ` {i. i < nat (sint (3 :: cint)) \<and> i mod 2 = 0 * 2 + lid})) < 2 ^ 24
            \<longrightarrow> s1 ! lid = Min ((!) ?b ` {i. i < nat (sint (3 :: cint)) \<and> i mod 2 = 0 * 2 + lid}))
     \<and> (\<forall>lid<2. \<exists>vis. scan ?b 3 2 (0 * 2 + lid) = Some (Inr (ulong_to_float (s1 ! lid), vis)))
     \<and> reduce_loop oor_sat 2 (of_nat (2 div 2)) s1 0 = Inr (s2, r)
     \<and> s2 ! 0 = Min (set (take 2 s1))
     \<and> run_group oor_sat 2 2 ?b [] [0, 0] 3 [0] 0 = Some (Inr (s2, [0][0 := s2 ! 0], r))"
    using visits by (intro group_minimum_power_of_two [where k = 1]) simp_all
  then show ?thesis by auto
qed

text \<open>
  A group of two work-items on the cells \<open>2 ^ 24 + 1\<close> and \<open>2 ^ 24 + 5\<close>: each
  work-item visits one cell, and after phase 1 the scratch array holds \<open>2 ^ 24\<close> and
  \<open>2 ^ 24 + 4\<close>, the nearest floats, not the cells visited. And a group of two
  work-items on the single cell 5, on a device that converts an out-of-range float to
  0: the work-item 1 visits nothing, leaves the scan with \<open>INFINITY\<close> and stores 0,
  and after the loop \<open>scratch[0]\<close> and the output are 0, while the least of the two
  accumulators is 5.
\<close>

theorem rounded_cells_counterexample:
  "scan [16777217, 16777221] 2 2 0 = Some (Inr (ulong_to_float 16777217, [0]))
     \<and> scan_workers oor_sat [16777217, 16777221] 2 2 2 0 [0..<2] [0, 0]
         = Some (Inr [16777216, 16777220])
     \<and> scan [5] 1 2 0 = Some (Inr (ulong_to_float 5, [0]))
     \<and> scan [5] 1 2 1 = Some (Inr (INFINITY, []))
     \<and> scan_workers oor_zero [5] 1 2 2 0 [0..<2] [0, 0] = Some (Inr [5, 0])
     \<and> run_group oor_zero 2 2 [5] [] [0, 0] 1 [0] 0 = Some (Inr ([0, 0], [0], 1))"
proof (intro conjI)
  show sc0: "scan [16777217, 16777221] 2 2 0 = Some (Inr (ulong_to_float 16777217, [0]))"
    by (simp add: scan_def scan_loop.simps load_def word_sless_alt conversions_rounded)
  have sc1: "scan [16777217, 16777221] 2 2 (Suc 0) = Some (Inr (0x4B800002, [1]))"
    by (simp add: scan_def scan_loop.simps load_def word_sless_alt conversions_rounded)
  show "scan_workers oor_sat [16777217, 16777221] 2 2 2 0 [0..<2] [0, 0]
      = Some (Inr [16777216, 16777220])"
    by (simp add: upt_rec sc0 sc1 store_def conversions_rounded)
  show i0: "scan [5] 1 2 0 = Some (Inr (ulong_to_float 5, [0]))"
    by (simp add: scan_def scan_loop.simps load_def word_sless_alt conversions_5_3_1)
  show i1: "scan [5] 1 2 1 = Some (Inr (INFINITY, []))"
    by (simp add: scan_def scan_loop.simps load_def word_sless_alt)
  show p1: "scan_workers oor_zero [5] 1 2 2 0 [0..<2] [0, 0] = Some (Inr [5, 0])"
    using i0 i1 by (simp add: upt_rec store_def conversions_5_3_1 conversions_edge)
  have p2: "reduce_group oor_zero 2 0 [5, 0] [0] = Inr ([0, 0], [0], 1)"
    by (simp add: reduce_group_def reduce_loop.simps reduce_step_def publish_def load_def
          store_def word_sless_alt upt_rec signed_divide_int_def conversions_5_3_1 conversions_edge)
  show "run_group oor_zero 2 2 [5] [] [0, 0] 1 [0] 0 = Some (Inr ([0, 0], [0], 1))"
    using p1 p2 by (simp add: run_group_def)
qed

section \<open>The minimum over the output\<close>

text \<open>
  The value a group publishes: the least of the cells its work-items store.
\<close>

lemma group_value:
  assumes pow: "N = 2 ^ k" and grp: "grp < W div N" and scr: "N \<le> length scratch"
    and visits: "\<And>lid. lid < N \<Longrightarrow>
        \<exists>i<L. i mod W = grp * N + lid \<and> unat (buffer ! i) < 2 ^ 64 - 2 ^ 39"
  shows "tree_loop oor (N div 2) (stored_accumulators oor buffer W N L scratch grp) ! 0
       = Min ((\<lambda>lid. float_to_ulong oor (ulong_to_float
                 (Min ((!) buffer ` {i. i < L \<and> i mod W = grp * N + lid})))) ` {0..<N})"
proof -
  define s1 where "s1 = stored_accumulators oor buffer W N L scratch grp"
  define m where "m = (\<lambda>lid. Min ((!) buffer ` {i. i < L \<and> i mod W = grp * N + lid}))"
  have N0: "0 < N" using pow by simp
  have member: "grp * N + lid < W" if "lid < N" for lid
    using grp that by (rule group_member_bound)
  have l1: "length s1 = length scratch" using scr by (simp add: s1_def stored_accumulators_def)
  have cell: "s1 ! lid = float_to_ulong oor (ulong_to_float (m lid))
      \<and> unat (m lid) < 2 ^ 64 - 2 ^ 39" if lid: "lid < N" for lid
  proof -
    obtain i where i: "i < L" "i mod W = grp * N + lid" "unat (buffer ! i) < 2 ^ 64 - 2 ^ 39"
      using visits [OF lid] by blast
    show ?thesis
      unfolding m_def s1_def using stored_accumulator_cell [OF member [OF lid] lid i] by blast
  qed
  have keep: "float_to_ulong oor (ulong_to_float (s1 ! lid)) = s1 ! lid" if "lid < N" for lid
    using cell [OF that] by (simp add: round_trip)
  have tc: "set (tree_cells N) = {0..<N}" unfolding pow by (rule tree_cells_power)
  have "tree_loop oor (N div 2) s1 ! 0 = Min ((!) s1 ` set (tree_cells N))"
    using N0 scr l1 keep by (intro tree_loop_min) (simp_all add: tc)
  also have "(!) s1 ` set (tree_cells N)
      = (\<lambda>lid. float_to_ulong oor (ulong_to_float (m lid))) ` {0..<N}"
    unfolding tc using cell by (intro image_cong) simp_all
  finally show ?thesis unfolding s1_def m_def .
qed

lemma group_ids_cover:
  fixes N G :: nat
  assumes "0 < N"
  shows "(\<Union>grp\<in>{0..<G}. (\<lambda>lid. f (grp * N + lid)) ` {0..<N}) = f ` {0..<N * G}"
proof (intro equalityI subsetI)
  fix x
  assume "x \<in> (\<Union>grp\<in>{0..<G}. (\<lambda>lid. f (grp * N + lid)) ` {0..<N})"
  then obtain grp lid where a: "grp < G" "lid < N" "x = f (grp * N + lid)" by auto
  have "grp < (N * G) div N" using a(1) assms by simp
  then have "grp * N + lid < N * G" using a(2) by (rule group_member_bound)
  then show "x \<in> f ` {0..<N * G}" using a(3) by simp
next
  fix x
  assume "x \<in> f ` {0..<N * G}"
  then obtain g where g: "g < N * G" "x = f g" by auto
  have "g div N < G" using g(1) by (simp add: less_mult_imp_div_less mult.commute)
  then have 1: "g div N \<in> {0..<G}" by simp
  have "g mod N < N" using assms by simp
  then have 2: "g mod N \<in> {0..<N}" by simp
  have "x = f ((g div N) * N + g mod N)" using g(2) by simp
  then have "x \<in> (\<lambda>lid. f ((g div N) * N + lid)) ` {0..<N}" using 2 by (rule image_eqI)
  then show "x \<in> (\<Union>grp\<in>{0..<G}. (\<lambda>lid. f (grp * N + lid)) ` {0..<N})"
    using 1 by (rule UN_I [rotated])
qed

lemma strides_cover:
  assumes "0 < W"
  shows "(\<Union>g\<in>{0..<W}. (!) buffer ` {i. i < length buffer \<and> i mod W = g}) = set buffer"
proof -
  have "(\<Union>g\<in>{0..<W}. (!) buffer ` {i. i < length buffer \<and> i mod W = g})
      = (!) buffer ` {i. i < length buffer}"
  proof (intro equalityI subsetI)
    fix x
    assume "x \<in> (\<Union>g\<in>{0..<W}. (!) buffer ` {i. i < length buffer \<and> i mod W = g})"
    then show "x \<in> (!) buffer ` {i. i < length buffer}" by auto
  next
    fix x
    assume "x \<in> (!) buffer ` {i. i < length buffer}"
    then obtain i where i: "i < length buffer" "x = buffer ! i" by auto
    have "i mod W \<in> {0..<W}" using assms by simp
    moreover have "x \<in> (!) buffer ` {j. j < length buffer \<and> j mod W = i mod W}"
      using i by auto
    ultimately show "x \<in> (\<Union>g\<in>{0..<W}. (!) buffer ` {i. i < length buffer \<and> i mod W = g})"
      by (rule UN_I)
  qed
  also have "\<dots> = set buffer"
    using nth_image [of "length buffer" buffer] by (simp add: lessThan_def atLeast0LessThan)
  finally show ?thesis .
qed

text \<open>
  C1, as amended. Let the group size be a power of two that divides the number of
  work-items (\<open>W = N * G\<close>, \<open>G\<close> groups), \<open>length\<close> be the number of cells of
  the buffer, with no index overflow (\<open>length + W \<le> 2 ^ 31\<close>), every work-item
  visit at least one cell below \<open>2 ^ 64 - 2 ^ 39\<close> (its accumulator is then in the
  range of \<open>ulong\<close>), and the scratch and output arrays be large enough. Then the
  kernel returns, and the least of the \<open>G\<close> output cells it writes is the least
  cell of the buffer converted to \<open>float\<close> and back: the nearest float. It is the
  least cell itself exactly when that cell survives the conversion, as every cell
  below \<open>2 ^ 24\<close> does.
\<close>

theorem kernel_minimum:
  assumes pow: "N = 2 ^ k" and groups: "W = N * G" "0 < G"
    and len: "nat (sint length') = length buffer"
    and ov: "length buffer + W \<le> 2 ^ 31"
    and scr: "N \<le> length scratch" and out: "G \<le> length output"
    and visits: "\<forall>g<W. \<exists>i<length buffer. i mod W = g \<and> unat (buffer ! i) < 2 ^ 64 - 2 ^ 39"
  shows "\<exists>out'. pir oor W N buffer mask1 scratch length' output = Some (Inr out')
           \<and> Min (set (take G out')) = float_to_ulong oor (ulong_to_float (Min (set buffer)))
           \<and> (Min (set (take G out')) = Min (set buffer))
               = (float_to_ulong oor (ulong_to_float (Min (set buffer))) = Min (set buffer))
           \<and> (unat (Min (set buffer)) < 2 ^ 24 \<longrightarrow> Min (set (take G out')) = Min (set buffer))"
proof -
  define L where "L = length buffer"
  define rt where "rt = (\<lambda>c. float_to_ulong oor (ulong_to_float c))"
  define v where "v = (\<lambda>grp. tree_loop oor (N div 2) (stored_accumulators oor buffer W N L scratch grp) ! 0)"
  define B where "B = (\<lambda>g. (!) buffer ` {i. i < L \<and> i mod W = g})"
  define m where "m = (\<lambda>g. Min (B g))"
  have N0: "0 < N" using pow by simp
  have W0: "0 < W" using groups N0 by simp
  have WN: "W div N = G" using groups N0 by simp
  have p: "pir oor W N buffer mask1 scratch length' output
      = Some (Inr (map v [0..<G] @ drop G output))"
    using N0 ov scr out len unfolding v_def L_def
    by (subst pir_result) (simp_all add: WN)
  have Bne: "finite (B g) \<and> B g \<noteq> {}" and mr: "unat (m g) < 2 ^ 64 - 2 ^ 39" if g: "g < W" for g
  proof -
    obtain i where i: "i < L" "i mod W = g" "unat (buffer ! i) < 2 ^ 64 - 2 ^ 39"
      using visits g unfolding L_def by blast
    have iB: "buffer ! i \<in> B g" using i(1,2) by (auto simp: B_def)
    show fin: "finite (B g) \<and> B g \<noteq> {}" using iB by (auto simp: B_def)
    have "m g \<le> buffer ! i" unfolding m_def using fin iB by simp
    then show "unat (m g) < 2 ^ 64 - 2 ^ 39" using i(3) by (simp add: word_le_nat_alt)
  qed
  have vg: "v grp = Min ((\<lambda>lid. rt (m (grp * N + lid))) ` {0..<N})" if "grp < G" for grp
  proof -
    have grp: "grp < W div N" using that by (simp add: WN)
    have "\<exists>i<L. i mod W = grp * N + lid \<and> unat (buffer ! i) < 2 ^ 64 - 2 ^ 39" if "lid < N" for lid
      using visits group_member_bound [OF grp that] unfolding L_def by blast
    then show ?thesis
      unfolding v_def rt_def m_def B_def using scr by (intro group_value [OF pow grp]) simp_all
  qed
  have "set (take G (map v [0..<G] @ drop G output)) = v ` {0..<G}" by simp
  also have "\<dots> = (\<lambda>grp. Min ((\<lambda>lid. rt (m (grp * N + lid))) ` {0..<N})) ` {0..<G}"
    using vg by (intro image_cong) simp_all
  also have "Min \<dots> = Min (\<Union>grp\<in>{0..<G}. (\<lambda>lid. rt (m (grp * N + lid))) ` {0..<N})"
    using groups(2) N0 by (intro Min_of_Mins) simp_all
  also have "(\<Union>grp\<in>{0..<G}. (\<lambda>lid. rt (m (grp * N + lid))) ` {0..<N}) = (\<lambda>g. rt (m g)) ` {0..<W}"
    unfolding groups(1) using N0 by (rule group_ids_cover)
  also have "\<dots> = rt ` (m ` {0..<W})" by (simp add: image_image)
  also have "Min \<dots> = rt (Min (m ` {0..<W}))"
  proof (rule Min_mono_on)
    show "finite (m ` {0..<W})" "m ` {0..<W} \<noteq> {}" using W0 by simp_all
    show "rt a \<le> rt b" if "a \<in> m ` {0..<W}" "b \<in> m ` {0..<W}" "a \<le> b" for a b
      unfolding rt_def using that(3) mr that(2) by (intro round_trip_mono) auto
  qed
  also have "Min (m ` {0..<W}) = Min (\<Union>g\<in>{0..<W}. B g)"
    unfolding m_def using W0 Bne by (intro Min_of_Mins) simp_all
  also have "(\<Union>g\<in>{0..<W}. B g) = set buffer"
    unfolding B_def L_def using W0 by (rule strides_cover)
  finally have r: "Min (set (take G (map v [0..<G] @ drop G output))) = rt (Min (set buffer))" .
  have "rt (Min (set buffer)) = Min (set buffer)" if "unat (Min (set buffer)) < 2 ^ 24"
    unfolding rt_def using that by (rule float_to_ulong_small)
  then show ?thesis using p r unfolding rt_def by simp
qed

theorem kernel_minimum_witness:
  "(2::nat) = 2 ^ 1 \<and> (2::nat) = 2 * 1 \<and> (0::nat) < 1
     \<and> nat (sint (3 :: cint)) = length [16777221, 16777218, 16777225 :: ulong]
     \<and> length [16777221, 16777218, 16777225 :: ulong] + 2 \<le> 2 ^ 31
     \<and> 2 \<le> length [0, 0 :: ulong] \<and> 1 \<le> length [0 :: ulong]
     \<and> (\<exists>out'. pir oor_sat 2 2 [16777221, 16777218, 16777225] [] [0, 0] 3 [0] = Some (Inr out')
           \<and> Min (set (take 1 out')) = 16777218)"
proof -
  let ?b = "[16777221, 16777218, 16777225 :: ulong]"
  have visits: "\<forall>g<2. \<exists>i<length ?b. i mod 2 = g \<and> unat (?b ! i) < 2 ^ 64 - 2 ^ 39"
  proof (intro allI impI)
    fix g :: nat assume "g < 2"
    then have "g = 0 \<or> g = 1" by auto
    then have "g < length ?b \<and> g mod 2 = g \<and> unat (?b ! g) < 2 ^ 64 - 2 ^ 39" by auto
    then show "\<exists>i<length ?b. i mod 2 = g \<and> unat (?b ! i) < 2 ^ 64 - 2 ^ 39" by blast
  qed
  have "\<exists>out'. pir oor_sat 2 2 ?b [] [0, 0] 3 [0] = Some (Inr out')
           \<and> Min (set (take 1 out')) = float_to_ulong oor_sat (ulong_to_float (Min (set ?b)))
           \<and> (Min (set (take 1 out')) = Min (set ?b))
               = (float_to_ulong oor_sat (ulong_to_float (Min (set ?b))) = Min (set ?b))
           \<and> (unat (Min (set ?b)) < 2 ^ 24 \<longrightarrow> Min (set (take 1 out')) = Min (set ?b))"
    using visits by (intro kernel_minimum [where k = 1 and G = 1]) simp_all
  then show ?thesis by (auto simp: conversions_edge)
qed

text \<open>
  Five launches on which the least output cell is not the least cell of the buffer, or
  the kernel does not return an output. One work-item on the single cell
  \<open>2 ^ 24 + 1\<close>: the output cell is \<open>2 ^ 24\<close>, the nearest float. Two
  work-items on the single cell 5, on a device that converts an out-of-range float to
  0: the idle work-item stores the conversion of \<open>INFINITY\<close>, and the output cell is
  0. Two work-items on the cells 5 and \<open>2 ^ 64 - 1\<close> on the same device: the second
  accumulator is \<open>2 ^ 64\<close>, out of the range of \<open>ulong\<close>, and the output cell is
  0. A group of three work-items on the cells 5, 3, 1: the halving never folds the
  third cell, and the output cell is 3. And \<open>2 ^ 30\<close> work-items on
  \<open>2 ^ 30 + 1\<close> cells: the index of the work-item 0 overflows and the read of
  line 12 is outside the buffer.
\<close>

theorem rounded_minimum_counterexample:
  "pir oor_sat 1 1 [16777217] [] [0] 1 [0] = Some (Inr [16777216])
   \<and> pir oor_zero 2 2 [5] [] [0, 0] 1 [0] = Some (Inr [0])
   \<and> pir oor_zero 2 2 [5, 0xFFFFFFFFFFFFFFFF] [] [0, 0] 2 [0] = Some (Inr [0])
   \<and> pir oor_sat 3 3 [5, 3, 1] [] [0, 0, 0] 3 [0] = Some (Inr [3])
   \<and> pir oor_sat (2 ^ 30) 512 (replicate (2 ^ 30 + 1) 0) [] (replicate 512 0) (2 ^ 30 + 1)
        (replicate (2 ^ 21) 0)
      = Some (Inl (OutOfBounds Buffer (- (2 ^ 31))))"
proof (intro conjI)
  show "pir oor_sat 1 1 [16777217] [] [0] 1 [0] = Some (Inr [16777216])"
  proof -
    have sc: "scan [16777217] 1 1 0 = Some (Inr (0x4B800000, [0]))"
      by (simp add: scan_def scan_loop.simps load_def word_sless_alt conversions_rounded)
    have p1: "scan_workers oor_sat [16777217] 1 1 1 0 [0..<1] [0] = Some (Inr [16777216])"
      using sc by (simp add: store_def conversions_rounded)
    have p2: "reduce_group oor_sat 1 0 [16777216] [0] = Inr ([16777216], [16777216], 0)"
      by (simp add: reduce_group_def reduce_loop.simps publish_def load_def store_def word_sless_alt)
    show ?thesis using p1 p2 by (simp add: pir_def run_group_def)
  qed
  have p2: "reduce_group oor_zero 2 0 [5, 0] [0] = Inr ([0, 0], [0], 1)"
    by (simp add: reduce_group_def reduce_loop.simps reduce_step_def publish_def load_def
          store_def word_sless_alt upt_rec signed_divide_int_def conversions_5_3_1 conversions_edge)
  show "pir oor_zero 2 2 [5] [] [0, 0] 1 [0] = Some (Inr [0])"
  proof -
    have sc: "scan [5] 1 2 0 = Some (Inr (0x40A00000, [0]))"
      "scan [5] 1 2 (Suc 0) = Some (Inr (INFINITY, []))"
      by (simp_all add: scan_def scan_loop.simps load_def word_sless_alt conversions_5_3_1)
    have p1: "scan_workers oor_zero [5] 1 2 2 0 [0..<2] [0, 0] = Some (Inr [5, 0])"
      using sc by (simp add: upt_rec store_def conversions_5_3_1 conversions_edge)
    show ?thesis using p1 p2 by (simp add: pir_def run_group_def)
  qed
  show "pir oor_zero 2 2 [5, 0xFFFFFFFFFFFFFFFF] [] [0, 0] 2 [0] = Some (Inr [0])"
  proof -
    have sc: "scan [5, 0xFFFFFFFFFFFFFFFF] 2 2 0 = Some (Inr (0x40A00000, [0]))"
      "scan [5, 0xFFFFFFFFFFFFFFFF] 2 2 (Suc 0) = Some (Inr (0x5F800000, [1]))"
      by (simp_all add: scan_def scan_loop.simps load_def word_sless_alt conversions_5_3_1
            conversions_edge)
    have p1: "scan_workers oor_zero [5, 0xFFFFFFFFFFFFFFFF] 2 2 2 0 [0..<2] [0, 0] = Some (Inr [5, 0])"
      using sc by (simp add: upt_rec store_def conversions_5_3_1 conversions_edge)
    show ?thesis using p1 p2 by (simp add: pir_def run_group_def)
  qed
  show "pir oor_sat 3 3 [5, 3, 1] [] [0, 0, 0] 3 [0] = Some (Inr [3])"
  proof -
    have sc: "scan [5, 3, 1] 3 3 0 = Some (Inr (0x40A00000, [0]))"
      "scan [5, 3, 1] 3 3 (Suc 0) = Some (Inr (0x40400000, [1]))"
      "scan [5, 3, 1] 3 3 (Suc (Suc 0)) = Some (Inr (0x3F800000, [2]))"
      by (simp_all add: scan_def scan_loop.simps load_def word_sless_alt conversions_5_3_1)
    have p1: "scan_workers oor_sat [5, 3, 1] 3 3 3 0 [0..<3] [0, 0, 0] = Some (Inr [5, 3, 1])"
      by (simp add: upt_rec sc store_def conversions_5_3_1)
    have p2: "reduce_group oor_sat 3 0 [5, 3, 1] [0] = Inr ([3, 3, 1], [3], 1)"
      by (simp add: reduce_group_def reduce_loop.simps reduce_step_def publish_def load_def store_def
            word_sless_alt upt_rec signed_divide_int_def conversions_5_3_1)
    show ?thesis using p1 p2 by (simp add: pir_def run_group_def)
  qed
  show "pir oor_sat (2 ^ 30) 512 (replicate (2 ^ 30 + 1) 0) [] (replicate 512 0) (2 ^ 30 + 1)
        (replicate (2 ^ 21) 0)
      = Some (Inl (OutOfBounds Buffer (- (2 ^ 31))))"
  proof -
    have g: "[0..<2 ^ 30 div 512] = 0 # [1..<2 ^ 30 div 512]"
      by (subst upt_conv_Cons) simp_all
    have w: "[0..<512] = 0 # [1..<512]"
      by (subst upt_conv_Cons) simp_all
    have s: "scan (replicate (2 ^ 30 + 1) 0) (2 ^ 30 + 1) (2 ^ 30) (0 * 512 + 0)
        = Some (Inl (OutOfBounds Buffer (- (2 ^ 31))))"
      by (simp add: scan_def scan_loop.simps load_def word_sless_alt float_eval)
    show ?thesis
      unfolding pir_def g run_groups.simps run_group_def w scan_workers.simps s
      by simp
  qed
qed

section \<open>The mask\<close>

text \<open>
  C9. The kernel never reads \<open>mask\<close>: two invocations that differ only in the mask
  write the same output, and every group leaves the same scratch array.
\<close>

theorem mask_is_inert:
  "pir oor gsize lsize buffer mask1 scratch length' output
     = pir oor gsize lsize buffer mask2 scratch length' output
   \<and> run_group oor gsize lsize buffer mask1 scratch length' output grp
     = run_group oor gsize lsize buffer mask2 scratch length' output grp"
proof -
  have g: "run_group oor gsize lsize buffer mask1 scratch length' out grp
      = run_group oor gsize lsize buffer mask2 scratch length' out grp" for out grp
    by (simp add: run_group_def)
  have "run_groups oor gsize lsize buffer mask1 scratch length' grps out
      = run_groups oor gsize lsize buffer mask2 scratch length' grps out" for grps out
    by (induction grps arbitrary: out) (simp_all add: g split: option.splits sum.splits)
  then show ?thesis by (simp add: pir_def g)
qed

end
